theory Spec2Isabelle
  imports Complex_Main "HOL-Library.AList" "HOL-Library.Sublist"
begin

section \<open>Hybrid retrieval engine of \<^verbatim>\<open>backend/document_processor_vector.py\<close>\<close>

text \<open>
  The theory embeds the class \<^verbatim>\<open>DocumentProcessor\<close>: the chunker, the extraction of chunk
  records from the pages of a file, ingestion, and the hybrid search with its filters.

  Conventions of the model.
  \<^item> Text that the code reads character by character (page text, chunk content, the
    query) is a list of Unicode code points, \<open>py_text\<close>. Names and ids, which the code
    only compares and concatenates, are strings.
  \<^item> Python \<^verbatim>\<open>int\<close> is \<^typ>\<open>int\<close>; lengths, page numbers, chunk indices and the positions
    stored in the vector index are \<^typ>\<open>nat\<close>.
  \<^item> Scores are real numbers. \<open>score_candidate\<close> and the search built on it compute in
    exact arithmetic, every score the real number the source's expression denotes;
    \<open>float_score_candidate\<close> computes the same expression with the rounding of every
    floating-point operation, for the property that depends on it.
  \<^item> The collaborators that are not part of the repository (the sentence encoder, the
    FAISS index search, the BM25 model, MD5, the PDF reader, the Unicode tables of
    lower-casing and of word characters) are parameters.
  \<^item> The snapshot files are modelled with their failures: a file that cannot be read back,
    a save that stops at a write that raises, an upload written over a snapshot.
\<close>

subsection \<open>Strings: whitespace, strip, slices, decimal numerals\<close>

type_synonym py_text = "nat list"

text \<open>The code points of a string literal.\<close>

definition codepoints :: "string \<Rightarrow> py_text" where
  "codepoints s = map of_char s"

text \<open>\<^verbatim>\<open>str.isspace\<close> of one character, the test \<^verbatim>\<open>str.strip()\<close> uses: tab to carriage
  return, the separators 28 to 31, space, U+0085, U+00A0, U+1680, U+2000 to U+200A, U+2028,
  U+2029, U+202F, U+205F and U+3000.\<close>

definition isspace :: "nat \<Rightarrow> bool" where
  "isspace c =
     ((9 \<le> c \<and> c \<le> 13) \<or> (28 \<le> c \<and> c \<le> 32) \<or> c = 133 \<or> c = 160 \<or> c = 5760
      \<or> (8192 \<le> c \<and> c \<le> 8202) \<or> c = 8232 \<or> c = 8233 \<or> c = 8239 \<or> c = 8287
      \<or> c = 12288)"

text \<open>\<^verbatim>\<open>str.strip()\<close>: leading and trailing whitespace removed.\<close>

definition strip :: "py_text \<Rightarrow> py_text" where
  "strip s = rev (dropWhile isspace (rev (dropWhile isspace s)))"

text \<open>The slice \<^verbatim>\<open>s[a:b]\<close>: a negative bound counts from the end, and both bounds are clamped
  to the string.\<close>

definition slice_bound :: "nat \<Rightarrow> int \<Rightarrow> nat" where
  "slice_bound n i = (if i < 0 then nat (max (i + int n) 0) else min (nat i) n)"

definition py_slice :: "'a list \<Rightarrow> int \<Rightarrow> int \<Rightarrow> 'a list" where
  "py_slice s a b =
     (let lo = slice_bound (length s) a; hi = slice_bound (length s) b
      in take (hi - lo) (drop lo s))"

subsection \<open>The chunker\<close>

text \<open>
  \<^verbatim>\<open>
  def _chunk_text(self, text, chunk_size=1000, overlap=200):
      chunks = []
      start = 0
      text_length = len(text)
      while start < text_length:
          end = start + chunk_size
          chunk = text[start:end]
          chunks.append(chunk.strip())
          start += (chunk_size - overlap)
      return chunks
  \<close>
  The loop does not end when \<^verbatim>\<open>chunk_size - overlap\<close> is not positive and the text is not
  empty, so it is a partial function and \<open>None\<close> stands for not returning.
\<close>

partial_function (option)
  chunk_loop :: "py_text \<Rightarrow> int \<Rightarrow> int \<Rightarrow> int \<Rightarrow> py_text list \<Rightarrow> py_text list option"
where
  "chunk_loop text chunk_size overlap start chunks =
     (if start < int (length text)
      then chunk_loop text chunk_size overlap (start + (chunk_size - overlap))
             (chunks @ [strip (py_slice text start (start + chunk_size))])
      else Some chunks)"

definition chunk_text :: "py_text \<Rightarrow> int \<Rightarrow> int \<Rightarrow> py_text list option" where
  "chunk_text text chunk_size overlap = chunk_loop text chunk_size overlap 0 []"

subsection \<open>Chunk records of a file\<close>

text \<open>\<^verbatim>\<open>str(n)\<close> of a natural number, as the f-string of the chunk id renders it.\<close>

definition digit_char :: "nat \<Rightarrow> char" where
  "digit_char d = char_of (48 + d)"

fun str_nat :: "nat \<Rightarrow> string" where
  "str_nat n = (if n < 10 then [digit_char n] else str_nat (n div 10) @ [digit_char (n mod 10)])"

declare str_nat.simps [simp del]

record chunk =
  chunk_id :: string
  document_id :: string
  filename :: string
  page_number :: nat
  chunk_index :: nat
  content :: py_text

text \<open>\<^verbatim>\<open>f"{doc_id}_page{page_num}_chunk{chunk_idx}"\<close>\<close>

definition make_chunk_id :: "string \<Rightarrow> nat \<Rightarrow> nat \<Rightarrow> string" where
  "make_chunk_id doc_id page_num chunk_idx =
     doc_id @ ''_page'' @ str_nat page_num @ ''_chunk'' @ str_nat chunk_idx"

text \<open>The inner loop of \<^verbatim>\<open>_extract_and_chunk_pdf\<close>: one record per chunk of the page, the
  chunk index counted from 0.\<close>

definition page_records :: "string \<Rightarrow> string \<Rightarrow> nat \<Rightarrow> py_text list \<Rightarrow> chunk list" where
  "page_records doc_id fname page_num page_chunks =
     map (\<lambda>(chunk_idx, chunk_text).
            \<lparr>chunk_id = make_chunk_id doc_id page_num chunk_idx,
             document_id = doc_id,
             filename = fname,
             page_number = page_num,
             chunk_index = chunk_idx,
             content = chunk_text\<rparr>)
         (enumerate 0 page_chunks)"

text \<open>
  The outer loop over \<^verbatim>\<open>enumerate(reader.pages, start=1)\<close>. A page is \<open>Some text\<close> when
  \<^verbatim>\<open>page.extract_text()\<close> returns \<open>text\<close> and \<open>None\<close> when it raises: the
  \<^verbatim>\<open>except\<close> clause around the loop then ends the loop and keeps the records made so far.
  A page is chunked only under the guard \<^verbatim>\<open>if text.strip():\<close>.
\<close>

fun extract_pages ::
  "string \<Rightarrow> string \<Rightarrow> nat \<Rightarrow> py_text option list \<Rightarrow> chunk list \<Rightarrow> chunk list option" where
  "extract_pages doc_id fname page_num [] chunks = Some chunks"
| "extract_pages doc_id fname page_num (None # pages) chunks = Some chunks"
| "extract_pages doc_id fname page_num (Some text # pages) chunks =
     (if strip text \<noteq> []
      then (case chunk_text text 1000 200 of
              None \<Rightarrow> None
            | Some page_chunks \<Rightarrow>
                extract_pages doc_id fname (Suc page_num) pages
                  (chunks @ page_records doc_id fname page_num page_chunks))
      else extract_pages doc_id fname (Suc page_num) pages chunks)"

text \<open>The file as the reader sees it: \<open>None\<close> when \<^verbatim>\<open>PdfReader(file_path)\<close> raises (the
  \<^verbatim>\<open>except\<close> clause then returns the empty list), the pages otherwise.\<close>

definition extract_and_chunk_pdf ::
  "py_text option list option \<Rightarrow> string \<Rightarrow> string \<Rightarrow> chunk list option" where
  "extract_and_chunk_pdf reader doc_id fname =
     (case reader of
        None \<Rightarrow> Some []
      | Some pages \<Rightarrow> extract_pages doc_id fname 1 pages [])"

subsection \<open>The processor and its collaborators\<close>

text \<open>
  The collaborators, as parameters: \<^verbatim>\<open>embedding_model.encode\<close>, the search of the FAISS
  index (the zipped rows \<^verbatim>\<open>distances[0]\<close>, \<^verbatim>\<open>indices[0]\<close> for the stored vectors, the
  query vector and \<open>k\<close>), the constructor \<^verbatim>\<open>BM25Okapi\<close> and its \<^verbatim>\<open>get_scores\<close>,
  \<^verbatim>\<open>hashlib.md5(...).hexdigest()\<close>, the path \<^verbatim>\<open>str(upload_dir / filename)\<close>, and of the
  Unicode tables of Python \<^verbatim>\<open>str.lower()\<close> and the test of a word character (\<^verbatim>\<open>\w\<close>).
  The search is asked for at most \<open>ntotal\<close> neighbours, so FAISS has no missing neighbour
  to report with its label -1, and a position is a natural number. Its distances are
  squared Euclidean distances; \<open>1 / (1 + dist)\<close> divides by zero only at the distance -1,
  where NumPy gives infinity and the model 0, and the theorems on scores assume distances
  that are not negative.
\<close>

record ('v, 'b) collaborators =
  encode :: "py_text list \<Rightarrow> 'v list"
  index_search :: "'v list \<Rightarrow> 'v \<Rightarrow> int \<Rightarrow> (real \<times> nat) list"
  BM25Okapi :: "py_text list list \<Rightarrow> 'b"
  get_scores :: "'b \<Rightarrow> py_text list \<Rightarrow> real list"
  md5_hexdigest :: "string \<Rightarrow> string"
  upload_path :: "string \<Rightarrow> string"
  str_lower :: "py_text \<Rightarrow> py_text"
  word_char :: "nat \<Rightarrow> bool"

text \<open>\<^verbatim>\<open>re.findall(r'\w+', text.lower())\<close>: the maximal runs of word characters of the
  lower-cased text, from left to right.\<close>

fun findall_words :: "(nat \<Rightarrow> bool) \<Rightarrow> py_text \<Rightarrow> py_text \<Rightarrow> py_text list" where
  "findall_words w [] cur = (if cur = [] then [] else [cur])"
| "findall_words w (c # cs) cur =
     (if w c then findall_words w cs (cur @ [c])
      else (if cur = [] then [] else [cur]) @ findall_words w cs [])"

definition tokenize :: "('v, 'b) collaborators \<Rightarrow> py_text \<Rightarrow> py_text list" where
  "tokenize E text = findall_words (word_char E) (str_lower E text) []"

record doc_meta =
  meta_filename :: string
  meta_path :: string
  meta_chunks_count :: nat

text \<open>The fields of \<^verbatim>\<open>DocumentProcessor\<close> that ingestion and search use; \<open>index\<close> is the list
  of the vectors stored in the FAISS index, in insertion order, so \<^verbatim>\<open>index.ntotal\<close> is its
  length.\<close>

record ('v, 'b) processor =
  index :: "'v list"
  chunks :: "chunk list"
  documents :: "string \<rightharpoonup> doc_meta"
  bm25 :: "'b option"
  tokenized_chunks :: "py_text list list"

definition ntotal :: "('v, 'b) processor \<Rightarrow> nat" where
  "ntotal s = length (index s)"

text \<open>The processor as \<^verbatim>\<open>__init__\<close> leaves it when nothing has been persisted.\<close>

definition fresh :: "('v, 'b) processor" where
  "fresh = \<lparr>index = [], chunks = [], documents = Map.empty, bm25 = None,
            tokenized_chunks = []\<rparr>"

record upload_file =
  file_name :: string
  file_reader :: "py_text option list option"

record response =
  resp_document_id :: string
  resp_filename :: string
  resp_chunks_count :: nat
  resp_error :: "string option"

text \<open>
  \<^verbatim>\<open>
  def _build_bm25_index(self):
      if not self.chunks:
          return
      self.tokenized_chunks = [self._tokenize(chunk["content"]) for chunk in self.chunks]
      self.bm25 = BM25Okapi(self.tokenized_chunks)
  \<close>
\<close>

definition build_bm25_index ::
  "('v, 'b) collaborators \<Rightarrow> ('v, 'b) processor \<Rightarrow> ('v, 'b) processor" where
  "build_bm25_index E s =
     (if chunks s = [] then s
      else let toks = map (\<lambda>c. tokenize E (content c)) (chunks s)
           in s\<lparr>tokenized_chunks := toks, bm25 := Some (BM25Okapi E toks)\<rparr>)"

subsection \<open>Persistence\<close>

text \<open>
  The four snapshot files under the upload directory. A file is absent, holds what was
  stored in it, or exists and cannot be read back: cut short by a write that failed, or
  overwritten with other bytes.
\<close>

datatype 'a snapshot = Absent | Stored 'a | Unreadable

text \<open>
  The writes of \<^verbatim>\<open>_save_persistent_data\<close>, in the source's order. The disk says what the
  next save meets: no fault, or the write that raises, and whether that write leaves its
  file cut short (\<open>True\<close>) or untouched.
\<close>

datatype save_step = Write_index | Write_chunks | Write_metadata | Write_bm25

record ('v, 'b) disk =
  index_file :: "'v list snapshot"
  chunks_file :: "chunk list snapshot"
  metadata_file :: "(string \<rightharpoonup> doc_meta) snapshot"
  bm25_file :: "('b \<times> py_text list list) snapshot"
  write_fault :: "(save_step \<times> bool) option"

definition no_files :: "('v, 'b) disk" where
  "no_files = \<lparr>index_file = Absent, chunks_file = Absent, metadata_file = Absent,
               bm25_file = Absent, write_fault = None\<rparr>"

definition cut_short :: "bool \<Rightarrow> 'a snapshot \<Rightarrow> 'a snapshot" where
  "cut_short truncated old = (if truncated then Unreadable else old)"

text \<open>
  \<^verbatim>\<open>
  def _save_persistent_data(self):
      try:
          faiss.write_index(self.index, str(self.index_file))
          with open(self.chunks_file, 'wb') as f:
              pickle.dump(self.chunks, f)
          with open(self.metadata_file, 'w', encoding='utf-8') as f:
              json.dump(self.documents, f, indent=2)
          if self.bm25:
              with open(self.bm25_file, 'wb') as f:
                  pickle.dump({'bm25': self.bm25,
                               'tokenized_chunks': self.tokenized_chunks}, f)
      except Exception as e:
          print(f"Error saving persistent data: {e}")
  \<close>
  A write that raises ends the save: the files before it are written, the files after it
  are as they were, and nothing is raised to the caller.
\<close>

definition save_persistent_data :: "('v, 'b) processor \<Rightarrow> ('v, 'b) disk \<Rightarrow> ('v, 'b) disk" where
  "save_persistent_data s d =
     (case write_fault d of
        None \<Rightarrow>
          d\<lparr>index_file := Stored (index s), chunks_file := Stored (chunks s),
            metadata_file := Stored (documents s),
            bm25_file := (case bm25 s of
                            None \<Rightarrow> bm25_file d
                          | Some b \<Rightarrow> Stored (b, tokenized_chunks s))\<rparr>
      | Some (Write_index, truncated) \<Rightarrow>
          d\<lparr>index_file := cut_short truncated (index_file d)\<rparr>
      | Some (Write_chunks, truncated) \<Rightarrow>
          d\<lparr>index_file := Stored (index s),
            chunks_file := cut_short truncated (chunks_file d)\<rparr>
      | Some (Write_metadata, truncated) \<Rightarrow>
          d\<lparr>index_file := Stored (index s), chunks_file := Stored (chunks s),
            metadata_file := cut_short truncated (metadata_file d)\<rparr>
      | Some (Write_bm25, truncated) \<Rightarrow>
          d\<lparr>index_file := Stored (index s), chunks_file := Stored (chunks s),
            metadata_file := Stored (documents s),
            bm25_file := (case bm25 s of
                            None \<Rightarrow> bm25_file d
                          | Some b \<Rightarrow> cut_short truncated (bm25_file d))\<rparr>)"

text \<open>
  \<^verbatim>\<open>_load_persistent_data\<close> reads, inside one \<^verbatim>\<open>try\<close>, the index, the chunks, the
  metadata and the BM25 snapshot, each when its file exists. A read that raises ends the
  load: what was read before it stays, the rest is not read, and nothing is raised.
\<close>

definition load_bm25 :: "('v, 'b) disk \<Rightarrow> ('v, 'b) processor \<Rightarrow> ('v, 'b) processor" where
  "load_bm25 d s =
     (case bm25_file d of
        Absent \<Rightarrow> s
      | Stored (b, toks) \<Rightarrow> s\<lparr>bm25 := Some b, tokenized_chunks := toks\<rparr>
      | Unreadable \<Rightarrow> s)"

definition load_metadata :: "('v, 'b) disk \<Rightarrow> ('v, 'b) processor \<Rightarrow> ('v, 'b) processor" where
  "load_metadata d s =
     (case metadata_file d of
        Absent \<Rightarrow> load_bm25 d s
      | Stored m \<Rightarrow> load_bm25 d (s\<lparr>documents := m\<rparr>)
      | Unreadable \<Rightarrow> s)"

definition load_chunks :: "('v, 'b) disk \<Rightarrow> ('v, 'b) processor \<Rightarrow> ('v, 'b) processor" where
  "load_chunks d s =
     (case chunks_file d of
        Absent \<Rightarrow> load_metadata d s
      | Stored c \<Rightarrow> load_metadata d (s\<lparr>chunks := c\<rparr>)
      | Unreadable \<Rightarrow> s)"

definition load_persistent_data :: "('v, 'b) disk \<Rightarrow> ('v, 'b) processor \<Rightarrow> ('v, 'b) processor" where
  "load_persistent_data d s =
     (case index_file d of
        Absent \<Rightarrow> load_chunks d s
      | Stored i \<Rightarrow> load_chunks d (s\<lparr>index := i\<rparr>)
      | Unreadable \<Rightarrow> s)"

text \<open>\<^verbatim>\<open>__init__\<close>: the empty processor, the snapshots loaded, and the keyword index built
  and saved when chunks were loaded without it.\<close>

definition init ::
  "('v, 'b) collaborators \<Rightarrow> ('v, 'b) disk \<Rightarrow> ('v, 'b) processor \<times> ('v, 'b) disk" where
  "init E d =
     (let s = load_persistent_data d fresh
      in if length (chunks s) > 0 \<and> bm25 s = None
         then (let s' = build_bm25_index E s in (s', save_persistent_data s' d))
         else (s, d))"

subsection \<open>Ingestion\<close>

text \<open>
  \<^verbatim>\<open>
  file_path = self.upload_dir / file.filename
  async with aiofiles.open(file_path, 'wb') as f:
      content = await file.read()
      await f.write(content)
  \<close>
  The upload is written into the directory of the snapshots under its own name. An upload
  named as a snapshot file overwrites that snapshot; its bytes are taken not to read back
  as a snapshot.
\<close>

definition write_upload :: "upload_file \<Rightarrow> ('v, 'b) disk \<Rightarrow> ('v, 'b) disk" where
  "write_upload file d =
     (if file_name file = ''faiss.index'' then d\<lparr>index_file := Unreadable\<rparr>
      else if file_name file = ''chunks.pkl'' then d\<lparr>chunks_file := Unreadable\<rparr>
      else if file_name file = ''documents_metadata.json'' then d\<lparr>metadata_file := Unreadable\<rparr>
      else if file_name file = ''bm25.pkl'' then d\<lparr>bm25_file := Unreadable\<rparr>
      else d)"

text \<open>
  \<^verbatim>\<open>process_document\<close>: the response, the processor and the disk afterwards. The result
  is \<open>None\<close> when the chunker does not return. A call in which the upload write or a
  collaborator raises gives no response and is not modelled.
\<close>

definition process_document ::
  "('v, 'b) collaborators \<Rightarrow> upload_file \<Rightarrow> ('v, 'b) processor \<times> ('v, 'b) disk
     \<Rightarrow> (response \<times> ('v, 'b) processor \<times> ('v, 'b) disk) option" where
  "process_document E file sd =
     (let s = fst sd; d = write_upload file (snd sd);
          doc_id = md5_hexdigest E (file_name file)
      in case extract_and_chunk_pdf (file_reader file) doc_id (file_name file) of
           None \<Rightarrow> None
         | Some text_chunks \<Rightarrow>
             if text_chunks = []
             then Some (\<lparr>resp_document_id = doc_id, resp_filename = file_name file,
                         resp_chunks_count = 0,
                         resp_error = Some ''No text extracted from PDF''\<rparr>, s, d)
             else
               let texts = map content text_chunks;
                   embeddings = encode E texts;
                   s1 = s\<lparr>index := index s @ embeddings\<rparr>;
                   s2 = s1\<lparr>chunks := chunks s1 @ text_chunks\<rparr>;
                   s3 = build_bm25_index E s2;
                   s4 = s3\<lparr>documents := (documents s3)(doc_id \<mapsto>
                           \<lparr>meta_filename = file_name file,
                            meta_path = upload_path E (file_name file),
                            meta_chunks_count = length text_chunks\<rparr>)\<rparr>
               in Some (\<lparr>resp_document_id = doc_id, resp_filename = file_name file,
                          resp_chunks_count = length text_chunks,
                          resp_error = None\<rparr>, s4, save_persistent_data s4 d))"

text \<open>
  States that a deployment reaches: it starts with no snapshot files; a document is
  ingested; the process is restarted, which constructs the processor again from the files;
  or the disk changes what the next save meets.
\<close>

inductive reachable ::
  "('v, 'b) collaborators \<Rightarrow> ('v, 'b) processor \<times> ('v, 'b) disk \<Rightarrow> bool"
  for E :: "('v, 'b) collaborators" where
  reachable_start: "reachable E (init E no_files)"
| reachable_ingest:
    "reachable E sd \<Longrightarrow> process_document E file sd = Some (r, sd') \<Longrightarrow> reachable E sd'"
| reachable_restart: "reachable E sd \<Longrightarrow> reachable E (init E (snd sd))"
| reachable_fault:
    "reachable E sd \<Longrightarrow> reachable E (fst sd, (snd sd)\<lparr>write_fault := fault\<rparr>)"

subsection \<open>Hybrid search\<close>

datatype py_error = IndexError

text \<open>The value of one entry of \<^verbatim>\<open>combined_results\<close>.\<close>

record scored =
  data_chunk :: chunk
  data_score :: real
  data_vector_score :: real
  data_bm25_score :: real

text \<open>A returned chunk: the copy of the chunk with the three scores added.\<close>

record result = chunk +
  relevance_score :: real
  vector_score :: real
  bm25_score :: real

record filters =
  document :: "string option"
  page_range :: "int list option"
  min_confidence :: "real option"

text \<open>
  \<^verbatim>\<open>
  bm25_score = float(bm25_scores[int(idx)]) \
      if len(bm25_scores) > 0 and int(idx) < len(bm25_scores) else 0.0
  \<close>
\<close>

definition bm25_lookup :: "real list \<Rightarrow> nat \<Rightarrow> real" where
  "bm25_lookup bm25_scores idx =
     (if length bm25_scores > 0 \<and> idx < length bm25_scores then bm25_scores ! idx else 0)"

text \<open>The body of the loop over the candidates, for a position \<open>idx < len(self.chunks)\<close>.\<close>

definition score_candidate :: "chunk list \<Rightarrow> real list \<Rightarrow> real \<Rightarrow> nat \<Rightarrow> scored" where
  "score_candidate cs bm25_scores distance idx =
     (let vector_score = 1 / (1 + distance);
          bm25_score = bm25_lookup bm25_scores idx;
          combined_score =
            0.6 * vector_score + 0.4 * (if bm25_score > 0 then bm25_score / 10 else 0)
      in \<lparr>data_chunk = cs ! idx, data_score = combined_score,
          data_vector_score = vector_score, data_bm25_score = bm25_score\<rparr>)"

text \<open>
  The loop \<^verbatim>\<open>for dist, idx in zip(distances[0], indices[0])\<close> (\<open>dist\<close> is written
  \<open>distance\<close> here). The dictionary
  \<^verbatim>\<open>combined_results\<close> is the list of its items in insertion order: storing under a key
  that is present replaces the value in place, storing under a new key appends.
\<close>

fun combine ::
  "chunk list \<Rightarrow> real list \<Rightarrow> (real \<times> nat) list \<Rightarrow> (nat \<times> scored) list \<Rightarrow> (nat \<times> scored) list" where
  "combine cs bm25_scores [] combined_results = combined_results"
| "combine cs bm25_scores ((distance, idx) # rest) combined_results =
     combine cs bm25_scores rest
       (if idx < length cs
        then AList.update idx (score_candidate cs bm25_scores distance idx) combined_results
        else combined_results)"

text \<open>\<^verbatim>\<open>filters and filters.get(key)\<close>: the value under the key when the dictionary is
  given, holds the key, and the value is truthy.\<close>

definition truthy_get ::
  "filters option \<Rightarrow> (filters \<Rightarrow> 'a option) \<Rightarrow> ('a \<Rightarrow> bool) \<Rightarrow> 'a option" where
  "truthy_get flt field truthy =
     (case flt of
        None \<Rightarrow> None
      | Some f \<Rightarrow> (case field f of
                     None \<Rightarrow> None
                   | Some v \<Rightarrow> if truthy v then Some v else None))"

definition document_filter :: "filters option \<Rightarrow> string option" where
  "document_filter flt = truthy_get flt document (\<lambda>d. d \<noteq> [])"

definition page_filter :: "filters option \<Rightarrow> int list option" where
  "page_filter flt = truthy_get flt page_range (\<lambda>r. r \<noteq> [])"

definition confidence_filter :: "filters option \<Rightarrow> real option" where
  "confidence_filter flt = truthy_get flt min_confidence (\<lambda>m. m \<noteq> 0)"

text \<open>
  The three tests of the filter loop, in the source's order; \<open>Inr True\<close> when the
  candidate is kept, \<open>Inr False\<close> when a test runs \<^verbatim>\<open>continue\<close>. Reading
  \<^verbatim>\<open>filters['page_range'][1]\<close> of a one-element range raises.
\<close>

definition keeps :: "filters option \<Rightarrow> scored \<Rightarrow> py_error + bool" where
  "keeps flt data =
     (if (case document_filter flt of
            None \<Rightarrow> False
          | Some d \<Rightarrow> filename (data_chunk data) \<noteq> d)
      then Inr False
      else case page_filter flt of
             Some [page_min] \<Rightarrow> Inl IndexError
           | Some (page_min # page_max # _) \<Rightarrow>
               if \<not> (page_min \<le> int (page_number (data_chunk data))
                      \<and> int (page_number (data_chunk data)) \<le> page_max)
               then Inr False
               else Inr (case confidence_filter flt of
                           None \<Rightarrow> True
                         | Some min_conf \<Rightarrow> \<not> data_score data < min_conf)
           | _ \<Rightarrow>
               Inr (case confidence_filter flt of
                      None \<Rightarrow> True
                    | Some min_conf \<Rightarrow> \<not> data_score data < min_conf))"

text \<open>
  The filter loop over \<^verbatim>\<open>sorted_results[:top_k * 2]\<close>. The position is kept beside each
  result; the source appends the annotated chunk alone.
\<close>

fun filter_loop ::
  "filters option \<Rightarrow> int \<Rightarrow> (nat \<times> scored) list \<Rightarrow> (nat \<times> scored) list
     \<Rightarrow> py_error + (nat \<times> scored) list" where
  "filter_loop flt top_k [] filtered_results = Inr filtered_results"
| "filter_loop flt top_k ((idx, data) # rest) filtered_results =
     (case keeps flt data of
        Inl e \<Rightarrow> Inl e
      | Inr keep \<Rightarrow>
          if keep
          then (let filtered_results' = filtered_results @ [(idx, data)]
                in if int (length filtered_results') \<ge> top_k then Inr filtered_results'
                   else filter_loop flt top_k rest filtered_results')
          else filter_loop flt top_k rest filtered_results)"

text \<open>\<^verbatim>\<open>xs[:n]\<close>: the first \<open>n\<close> items, or all but the last \<open>-n\<close> when \<open>n\<close> is negative.\<close>

definition py_prefix :: "'a list \<Rightarrow> int \<Rightarrow> 'a list" where
  "py_prefix xs n = py_slice xs 0 n"

definition bm25_scores_of ::
  "('v, 'b) collaborators \<Rightarrow> ('v, 'b) processor \<Rightarrow> py_text \<Rightarrow> real list" where
  "bm25_scores_of E s query =
     (case bm25 s of None \<Rightarrow> [] | Some b \<Rightarrow> get_scores E b (tokenize E query))"

text \<open>The candidates of the vector search, \<open>min(top_k * 2, ntotal)\<close> of them asked for;
  \<^verbatim>\<open>encode([query])[0]\<close> raises when the encoder returns nothing.\<close>

definition candidates ::
  "('v, 'b) collaborators \<Rightarrow> ('v, 'b) processor \<Rightarrow> py_text \<Rightarrow> int
     \<Rightarrow> py_error + (real \<times> nat) list" where
  "candidates E s query top_k =
     (case encode E [query] of
        [] \<Rightarrow> Inl IndexError
      | query_embedding # _ \<Rightarrow>
          Inr (index_search E (index s) query_embedding (min (top_k * 2) (int (ntotal s)))))"

text \<open>\<^verbatim>\<open>sorted(combined_results.items(), key=lambda x: x[1]['score'], reverse=True)\<close>:
  Python's sort is stable also with \<^verbatim>\<open>reverse=True\<close>, so it is the stable ascending sort
  by the negated score.\<close>

definition sorted_results :: "(nat \<times> scored) list \<Rightarrow> (nat \<times> scored) list" where
  "sorted_results combined_results =
     sort_key (\<lambda>x. - data_score (snd x)) combined_results"

definition combined_results_of ::
  "('v, 'b) collaborators \<Rightarrow> ('v, 'b) processor \<Rightarrow> py_text \<Rightarrow> (real \<times> nat) list
     \<Rightarrow> (nat \<times> scored) list" where
  "combined_results_of E s query cands =
     combine (chunks s) (bm25_scores_of E s query) cands []"

definition search_ranked ::
  "('v, 'b) collaborators \<Rightarrow> ('v, 'b) processor \<Rightarrow> py_text \<Rightarrow> int \<Rightarrow> filters option
     \<Rightarrow> py_error + (nat \<times> scored) list" where
  "search_ranked E s query top_k flt =
     (if ntotal s = 0 then Inr []
      else case candidates E s query top_k of
             Inl e \<Rightarrow> Inl e
           | Inr cands \<Rightarrow>
               let combined_results = combined_results_of E s query cands
               in filter_loop flt top_k
                    (py_prefix (sorted_results combined_results) (top_k * 2)) [])"

definition annotate :: "scored \<Rightarrow> result" where
  "annotate data =
     chunk.extend (data_chunk data)
       (result.fields (data_score data) (data_vector_score data) (data_bm25_score data))"

definition search_documents ::
  "('v, 'b) collaborators \<Rightarrow> ('v, 'b) processor \<Rightarrow> py_text \<Rightarrow> int \<Rightarrow> filters option
     \<Rightarrow> py_error + result list" where
  "search_documents E s query top_k flt =
     (case search_ranked E s query top_k flt of
        Inl e \<Rightarrow> Inl e
      | Inr ranked \<Rightarrow> Inr (map (\<lambda>x. annotate (snd x)) ranked))"

subsection \<open>The scores in floating point\<close>

text \<open>
  The program computes the scores in binary floating point. \<open>round_half_even\<close> is the
  nearest integer of a real, the even one of two nearest; \<open>float_round p\<close> rounds a real to
  the nearest number with \<open>p\<close> significant bits, ties to even, with no bound on the
  exponent (no overflow, no subnormal numbers, no infinities, no NaN). \<open>float32\<close> and
  \<open>float64\<close> are the roundings of single and of double precision.
\<close>

definition round_half_even :: "real \<Rightarrow> int" where
  "round_half_even x =
     (let f = \<lfloor>x\<rfloor>; r = x - of_int f
      in if r < 1 / 2 then f else if 1 / 2 < r then f + 1 else if even f then f else f + 1)"

definition float_round :: "nat \<Rightarrow> real \<Rightarrow> real" where
  "float_round p x =
     (if x = 0 then 0
      else let ulp = 2 powr of_int (\<lfloor>log 2 \<bar>x\<bar>\<rfloor> - int p + 1)
           in of_int (round_half_even (x / ulp)) * ulp)"

definition float32 :: "real \<Rightarrow> real" where
  "float32 = float_round 24"

definition float64 :: "real \<Rightarrow> real" where
  "float64 = float_round 53"

text \<open>What the properties below need of a rounding: it keeps 0 and 1 and is monotone on the
  numbers that are not negative.\<close>

definition rounding :: "(real \<Rightarrow> real) \<Rightarrow> bool" where
  "rounding r \<longleftrightarrow> r 0 = 0 \<and> r 1 = 1 \<and> (\<forall>x y. 0 \<le> x \<and> x \<le> y \<longrightarrow> r x \<le> r y)"

text \<open>
  \<^verbatim>\<open>
  vector_score = float(1 / (1 + dist))
  bm25_score = float(bm25_scores[int(idx)]) \
      if len(bm25_scores) > 0 and int(idx) < len(bm25_scores) else 0.0
  combined_score = 0.6 * vector_score + 0.4 * (bm25_score / 10.0 if bm25_score > 0.0 else 0.0)
  \<close>
  with the rounding of every operation written out. \<open>dist\<close> is a NumPy \<^verbatim>\<open>float32\<close>, so
  \<^verbatim>\<open>1 + dist\<close> and \<^verbatim>\<open>1 / (1 + dist)\<close> are NumPy scalar operations, rounded by \<open>np\<close>: to single
  precision under NumPy 2, to double precision under the promotion rules of NumPy 1.
  \<^verbatim>\<open>float(...)\<close> converts exactly. The other operations are Python float operations,
  rounded by \<open>py\<close> (double precision); \<^verbatim>\<open>0.6\<close> and \<^verbatim>\<open>0.4\<close> are the floats nearest to these
  decimals. With no rounding at all this is \<open>score_candidate\<close>.
\<close>

definition float_score_candidate ::
  "(real \<Rightarrow> real) \<Rightarrow> (real \<Rightarrow> real) \<Rightarrow> chunk list \<Rightarrow> real list \<Rightarrow> real \<Rightarrow> nat \<Rightarrow> scored" where
  "float_score_candidate np py cs bm25_scores distance idx =
     (let vector_score = np (1 / np (1 + distance));
          bm25_score = bm25_lookup bm25_scores idx;
          combined_score =
            py (py (py 0.6 * vector_score)
                + py (py 0.4 * (if bm25_score > 0 then py (bm25_score / 10) else 0)))
      in \<lparr>data_chunk = cs ! idx, data_score = combined_score,
          data_vector_score = vector_score, data_bm25_score = bm25_score\<rparr>)"

subsection \<open>Runs\<close>

text \<open>What is counted after an ingestion: whether the response has no error field, the
  vectors in the index, the chunks, and the tokenized chunks.\<close>

definition ingestion_counts ::
  "response \<times> ('v, 'b) processor \<times> ('v, 'b) disk \<Rightarrow> bool \<times> nat \<times> nat \<times> nat" where
  "ingestion_counts x =
     (resp_error (fst x) = None, ntotal (fst (snd x)), length (chunks (fst (snd x))),
      length (tokenized_chunks (fst (snd x))))"

text \<open>Ingesting a list of uploads, one after the other.\<close>

fun ingest_all ::
  "('v, 'b) collaborators \<Rightarrow> upload_file list \<Rightarrow> ('v, 'b) processor \<times> ('v, 'b) disk
     \<Rightarrow> (('v, 'b) processor \<times> ('v, 'b) disk) option" where
  "ingest_all E [] sd = Some sd"
| "ingest_all E (file # files) sd =
     (case process_document E file sd of
        None \<Rightarrow> None
      | Some (r, sd') \<Rightarrow> ingest_all E files sd')"

text \<open>The ids of the chunk sequence.\<close>

definition corpus_ids :: "('v, 'b) processor \<times> ('v, 'b) disk \<Rightarrow> string list" where
  "corpus_ids sd = map chunk_id (chunks (fst sd))"

text \<open>What a chunk id is derived from, and a chunk whose id is derived from it.\<close>

definition chunk_key :: "chunk \<Rightarrow> string \<times> nat \<times> nat" where
  "chunk_key c = (document_id c, page_number c, chunk_index c)"

definition well_named :: "chunk \<Rightarrow> bool" where
  "well_named c =
     (chunk_id c = make_chunk_id (document_id c) (page_number c) (chunk_index c))"

subsection \<open>A small deployment\<close>

text \<open>
  Concrete collaborators and data at which the theorems below are instantiated: vectors are
  numbers, the index search returns position 1 at distance 0 and positions 0 and 2 at
  distance 1, the keyword model is the list of its scores, the digest drops underscores,
  and letters and digits are those below code point 128.
\<close>

definition lower_char :: "nat \<Rightarrow> nat" where
  "lower_char c = (if 65 \<le> c \<and> c \<le> 90 then c + 32 else c)"

definition is_word_char :: "nat \<Rightarrow> bool" where
  "is_word_char c =
     ((48 \<le> c \<and> c \<le> 57) \<or> (65 \<le> c \<and> c \<le> 90) \<or> c = 95 \<or> (97 \<le> c \<and> c \<le> 122))"

definition demo_collab :: "(nat, real list) collaborators" where
  "demo_collab =
     \<lparr>encode = map length,
      index_search = (\<lambda>vectors query_vector k. take (nat k) [(0, 1), (1, 0), (1, 2)]),
      BM25Okapi = map (\<lambda>toks. real (length toks)),
      get_scores = (\<lambda>model query_tokens. model),
      md5_hexdigest = filter (\<lambda>c. c \<noteq> CHR ''_''),
      upload_path = (\<lambda>name. ''./data/uploads/'' @ name),
      str_lower = map lower_char, word_char = is_word_char\<rparr>"

definition demo_file_a :: upload_file where
  "demo_file_a = \<lparr>file_name = ''A.pdf'', file_reader = Some [Some (codepoints ''  ''), Some (codepoints ''Door schedule'')]\<rparr>"

definition demo_file_b :: upload_file where
  "demo_file_b = \<lparr>file_name = ''B.pdf'', file_reader = Some [Some (codepoints ''Room list'')]\<rparr>"

text \<open>An upload without text under the name of the chunk snapshot, and the state after
  ingesting the first file, then this upload, then a restart.\<close>

definition demo_snapshot_upload :: upload_file where
  "demo_snapshot_upload = \<lparr>file_name = ''chunks.pkl'', file_reader = None\<rparr>"

definition demo_torn :: "(nat, real list) processor \<times> (nat, real list) disk" where
  "demo_torn =
     (case ingest_all demo_collab [demo_file_a, demo_snapshot_upload] (init demo_collab no_files) of
        None \<Rightarrow> init demo_collab no_files
      | Some sd \<Rightarrow> init demo_collab (snd sd))"

definition demo_chunk :: "string \<Rightarrow> nat \<Rightarrow> chunk" where
  "demo_chunk fname page =
     \<lparr>chunk_id = make_chunk_id fname page 0, document_id = fname, filename = fname,
      page_number = page, chunk_index = 0, content = codepoints ''door''\<rparr>"

definition demo_processor :: "(nat, real list) processor" where
  "demo_processor =
     \<lparr>index = [4, 4, 4],
      chunks = [demo_chunk ''A.pdf'' 1, demo_chunk ''B.pdf'' 1, demo_chunk ''A.pdf'' 2],
      documents = Map.empty, bm25 = None, tokenized_chunks = []\<rparr>"

definition demo_processor_bm25 :: "(nat, real list) processor" where
  "demo_processor_bm25 = demo_processor\<lparr>bm25 := Some [5, 0, 2]\<rparr>"

definition demo_filters :: filters where
  "demo_filters =
     \<lparr>document = Some ''A.pdf'', page_range = Some [1, 2], min_confidence = Some 0.2\<rparr>"

section \<open>Properties\<close>

subsection \<open>Chunker and extraction\<close>

lemma strip_replicate: "\<not> isspace c \<Longrightarrow> strip (replicate n c) = replicate n c"
  by (cases n) (simp_all add: strip_def replicate_append_same[symmetric] del: replicate_Suc)

lemma chunk_loop_total:
  "0 < cs - ov \<Longrightarrow> \<exists>r. chunk_loop t cs ov s acc = Some r"
proof (induction "nat (int (length t) - s)" arbitrary: s acc rule: less_induct)
  case less
  show ?case
  proof (cases "s < int (length t)")
    case True
    then have "nat (int (length t) - (s + (cs - ov))) < nat (int (length t) - s)"
      using less.prems by linarith
    from less.hyps[OF this less.prems] show ?thesis
      using True by (subst chunk_loop.simps) simp
  next
    case False
    then show ?thesis by (subst chunk_loop.simps) simp
  qed
qed

lemma chunk_text_total: "\<exists>r. chunk_text t 1000 200 = Some r"
  unfolding chunk_text_def by (rule chunk_loop_total) simp




lemma extract_pages_total: "\<exists>cs. extract_pages d f n pages acc = Some cs"
proof (induction pages arbitrary: n acc)
  case Nil
  then show ?case by simp
next
  case (Cons p pages)
  show ?case
  proof (cases p)
    case None
    then show ?thesis by simp
  next
    case (Some pt)
    obtain pcs where "chunk_text pt 1000 200 = Some pcs"
      using chunk_text_total by blast
    then show ?thesis using Some Cons.IH by simp
  qed
qed

lemma extract_total: "\<exists>cs. extract_and_chunk_pdf reader d f = Some cs"
  by (cases reader) (simp_all add: extract_and_chunk_pdf_def extract_pages_total)

lemma process_document_total: "\<exists>r sd'. process_document E file sd = Some (r, sd')"
proof -
  obtain cs where "extract_and_chunk_pdf (file_reader file) (md5_hexdigest E (file_name file)) (file_name file) = Some cs"
    using extract_total by blast
  then show ?thesis
    by (simp add: process_document_def Let_def)
qed




subsection \<open>Ingestion\<close>

lemma build_bm25_index_same:
  "index (build_bm25_index E s) = index s" "chunks (build_bm25_index E s) = chunks s"
  by (simp_all add: build_bm25_index_def Let_def)

lemma build_bm25_index_tokenized:
  "chunks s \<noteq> [] \<Longrightarrow> length (tokenized_chunks (build_bm25_index E s)) = length (chunks s)"
  by (simp add: build_bm25_index_def Let_def)

lemma process_document_cases:
  assumes "process_document E file sd = Some (r, s', d')"
  obtains (empty) "resp_error r \<noteq> None" "s' = fst sd" "d' = write_upload file (snd sd)"
  | (stored) text_chunks where "resp_error r = None" "text_chunks \<noteq> []"
      "index s' = index (fst sd) @ encode E (map content text_chunks)"
      "chunks s' = chunks (fst sd) @ text_chunks"
      "length (tokenized_chunks s') = length (chunks s')"
      "d' = save_persistent_data s' (write_upload file (snd sd))"
      "extract_and_chunk_pdf (file_reader file) (md5_hexdigest E (file_name file)) (file_name file) = Some text_chunks"
proof -
  obtain cs where cs: "extract_and_chunk_pdf (file_reader file) (md5_hexdigest E (file_name file)) (file_name file) = Some cs"
    using extract_total by blast
  show ?thesis
  proof (cases "cs = []")
    case True
    with assms cs have "resp_error r \<noteq> None" "s' = fst sd" "d' = write_upload file (snd sd)"
      by (auto simp: process_document_def Let_def)
    then show ?thesis by (rule empty)
  next
    case False
    with assms cs show ?thesis
      by (intro stored[of cs])
         (auto simp: process_document_def Let_def build_bm25_index_same build_bm25_index_tokenized)
  qed
qed

text \<open>
  Claim C1, amended. When the encoder returns one vector per text, a call of
  \<^verbatim>\<open>process_document\<close> that returns without the error field leaves at least one chunk
  and as many tokenized chunks as chunks; and the number of vectors in the index equals
  the number of chunks afterwards exactly when it did before the call.
\<close>

theorem ingestion_counts_agree:
  assumes "\<forall>texts. length (encode E texts) = length texts"
    and "process_document E file sd = Some (r, s', d')"
    and "resp_error r = None"
  shows "length (chunks s') = length (tokenized_chunks s') \<and> 0 < length (chunks s')
       \<and> (ntotal s' = length (chunks s') \<longleftrightarrow> ntotal (fst sd) = length (chunks (fst sd)))"
  using assms(2)
proof (cases rule: process_document_cases)
  case empty
  with assms(3) show ?thesis by simp
next
  case (stored text_chunks)
  then show ?thesis using assms(1) by (auto simp: ntotal_def)
qed

text \<open>Ingestions from a state in which the counts agree, as the processor started with no
  snapshot files, keep them equal.\<close>

lemma ingest_all_counts:
  assumes enc: "\<forall>texts. length (encode E texts) = length texts"
  shows "ingest_all E files sd = Some sd' \<Longrightarrow> ntotal (fst sd) = length (chunks (fst sd))
    \<Longrightarrow> ntotal (fst sd') = length (chunks (fst sd'))"
proof (induction files arbitrary: sd)
  case Nil
  then show ?case by simp
next
  case (Cons f fs)
  from Cons.prems(1) obtain r s1 d1 where
    run: "process_document E f sd = Some (r, s1, d1)" and
    rest: "ingest_all E fs (s1, d1) = Some sd'"
    by (auto split: option.splits)
  from run have "ntotal (fst (s1, d1)) = length (chunks (fst (s1, d1)))"
  proof (cases rule: process_document_cases)
    case empty
    with Cons.prems(2) show ?thesis by simp
  next
    case (stored text_chunks)
    with Cons.prems(2) enc show ?thesis by (simp add: ntotal_def)
  qed
  with Cons.IH[OF rest] show ?case .
qed

lemma fresh_run_counts:
  assumes "\<forall>texts. length (encode E texts) = length texts"
    and "ingest_all E files (init E no_files) = Some sd"
  shows "ntotal (fst sd) = length (chunks (fst sd))"
proof -
  have "ntotal (fst (init E no_files)) = length (chunks (fst (init E no_files)))"
    by (simp add: init_def load_persistent_data_def load_chunks_def load_metadata_def
        load_bm25_def no_files_def fresh_def ntotal_def)
  with ingest_all_counts[OF assms(1) assms(2)] show ?thesis .
qed

subsection \<open>Candidates, ranking and filters\<close>

lemma py_prefix_take: "0 \<le> n \<Longrightarrow> py_prefix xs n = take (nat n) xs"
  by (simp add: py_prefix_def py_slice_def slice_bound_def Let_def min_def)

lemma subseq_distinct: "subseq ys xs \<Longrightarrow> distinct xs \<Longrightarrow> distinct ys"
proof (induction rule: list_emb.induct)
  case (list_emb_Cons2 x y xs ys)
  then show ?case by (auto elim: list_emb_set)
qed simp_all

lemma subseq_sorted_wrt: "subseq ys xs \<Longrightarrow> sorted_wrt R xs \<Longrightarrow> sorted_wrt R ys"
proof (induction rule: list_emb.induct)
  case (list_emb_Cons2 x y xs ys)
  then show ?case by (auto elim: list_emb_set)
qed simp_all

lemma filter_loop_result:
  "filter_loop flt k xs acc = Inr res \<Longrightarrow>
   \<exists>ys. res = acc @ ys \<and> subseq ys xs \<and> (\<forall>x\<in>set ys. keeps flt (snd x) = Inr True)"
proof (induction xs arbitrary: acc)
  case Nil
  then show ?case by simp
next
  case (Cons x xs)
  obtain idx data where x: "x = (idx, data)" by (cases x)
  show ?case
  proof (cases "keeps flt data")
    case (Inl e)
    with Cons.prems x show ?thesis by simp
  next
    case (Inr keep)
    show ?thesis
    proof (cases keep)
      case False
      with Cons.prems x Inr have "filter_loop flt k xs acc = Inr res" by simp
      from Cons.IH[OF this] show ?thesis by auto
    next
      case True
      show ?thesis
      proof (cases "int (length (acc @ [(idx, data)])) \<ge> k")
        case stop: True
        with Cons.prems x Inr True have "res = acc @ [x]" by (simp add: Let_def)
        then show ?thesis using x Inr True by (intro exI[of _ "[x]"]) simp
      next
        case go: False
        with Cons.prems x Inr True have "filter_loop flt k xs (acc @ [x]) = Inr res"
          by (simp add: Let_def)
        from Cons.IH[OF this] obtain ys where
          ys: "res = (acc @ [x]) @ ys" "subseq ys xs" "\<forall>y\<in>set ys. keeps flt (snd y) = Inr True"
          by blast
        then show ?thesis using x Inr True by (intro exI[of _ "x # ys"]) simp
      qed
    qed
  qed
qed

lemma filter_loop_length:
  "filter_loop flt k xs acc = Inr res \<Longrightarrow> int (length acc) < k \<Longrightarrow> int (length res) \<le> k"
proof (induction xs arbitrary: acc)
  case Nil
  then show ?case by simp
next
  case (Cons x xs)
  obtain idx data where x: "x = (idx, data)" by (cases x)
  show ?case
  proof (cases "keeps flt data")
    case (Inl e)
    with Cons.prems x show ?thesis by simp
  next
    case (Inr keep)
    show ?thesis
    proof (cases keep)
      case False
      with Cons.prems x Inr have "filter_loop flt k xs acc = Inr res" by simp
      from Cons.IH[OF this Cons.prems(2)] show ?thesis .
    next
      case True
      show ?thesis
      proof (cases "int (length (acc @ [(idx, data)])) \<ge> k")
        case stop: True
        with Cons.prems x Inr True have "res = acc @ [x]" by (simp add: Let_def)
        then show ?thesis using Cons.prems(2) by simp
      next
        case go: False
        with Cons.prems x Inr True have "filter_loop flt k xs (acc @ [x]) = Inr res"
          by (simp add: Let_def)
        moreover from go x have "int (length (acc @ [x])) < k" by simp
        ultimately show ?thesis by (rule Cons.IH)
      qed
    qed
  qed
qed

lemma combine_distinct:
  "distinct (map fst acc) \<Longrightarrow> distinct (map fst (combine cs bm cands acc))"
  by (induction cs bm cands acc rule: combine.induct) (simp_all add: distinct_update)

lemma update_keys_subseq:
  "map fst (AList.update k v al) = map fst al \<or> map fst (AList.update k v al) = map fst al @ [k]"
  by (simp add: update_keys)

lemma combine_keys:
  "\<exists>ks. map fst (combine cs bm cands acc) = map fst acc @ ks \<and> subseq ks (map snd cands)"
proof (induction cs bm cands acc rule: combine.induct)
  case (1 cs bm acc)
  then show ?case by simp
next
  case (2 cs bm distance idx rest acc)
  let ?acc' = "if idx < length cs then AList.update idx (score_candidate cs bm distance idx) acc else acc"
  from 2 obtain ks where ks: "map fst (combine cs bm rest ?acc') = map fst ?acc' @ ks"
    "subseq ks (map snd rest)" by blast
  have "map fst ?acc' = map fst acc \<or> map fst ?acc' = map fst acc @ [idx]"
    by (simp add: update_keys)
  then show ?case
  proof
    assume "map fst ?acc' = map fst acc"
    with ks show ?thesis by (intro exI[of _ ks]) auto
  next
    assume "map fst ?acc' = map fst acc @ [idx]"
    with ks show ?thesis by (intro exI[of _ "idx # ks"]) auto
  qed
qed

lemma update_entries:
  "(k, v) \<in> set (AList.update k' v' al) \<Longrightarrow> (k, v) \<in> set al \<or> (k = k' \<and> v = v')"
  by (induction al) (auto split: if_splits)

lemma combine_entries:
  "(k, data) \<in> set (combine cs bm cands acc) \<Longrightarrow>
   (k, data) \<in> set acc \<or> (\<exists>d. (d, k) \<in> set cands \<and> k < length cs \<and> data = score_candidate cs bm d k)"
proof (induction cs bm cands acc rule: combine.induct)
  case (1 cs bm acc)
  then show ?case by simp
next
  case (2 cs bm distance idx rest acc)
  let ?acc' = "if idx < length cs then AList.update idx (score_candidate cs bm distance idx) acc else acc"
  from "2.prems" have "(k, data) \<in> set (combine cs bm rest ?acc')" by simp
  from "2.IH"[OF this] consider "(k, data) \<in> set ?acc'"
    | "\<exists>d. (d, k) \<in> set rest \<and> k < length cs \<and> data = score_candidate cs bm d k" by blast
  then show ?case
  proof cases
    case 1
    then show ?thesis
      by (auto split: if_splits dest!: update_entries)
  next
    case 2
    then show ?thesis by auto
  qed
qed

lemma combine_absent:
  "idx \<notin> snd ` set cands \<Longrightarrow> map_of (combine cs bm cands acc) idx = map_of acc idx"
  by (induction cs bm cands acc rule: combine.induct) (auto simp: update_conv')

lemma combine_present:
  "distinct (map snd cands) \<Longrightarrow> (d, idx) \<in> set cands \<Longrightarrow> idx < length cs \<Longrightarrow>
   map_of (combine cs bm cands acc) idx = Some (score_candidate cs bm d idx)"
proof (induction cs bm cands acc rule: combine.induct)
  case (1 cs bm acc)
  then show ?case by simp
next
  case (2 cs bm distance i rest acc)
  show ?case
  proof (cases "(d, idx) = (distance, i)")
    case True
    with "2.prems" have "idx \<notin> snd ` set rest" by auto
    then show ?thesis using True "2.prems" by (simp add: combine_absent update_conv')
  next
    case False
    with "2.prems" have "(d, idx) \<in> set rest" "distinct (map snd rest)" by auto
    then show ?thesis using "2.IH" "2.prems"(3) by simp
  qed
qed

text \<open>
  Claim C6. On an index with no vectors \<^verbatim>\<open>search_documents\<close> returns the empty list, for
  every query, \<open>top_k\<close> and filters, and raises nothing.
\<close>

theorem search_empty_index:
  "ntotal s = 0 \<Longrightarrow> search_documents E s query top_k flt = Inr []"
  by (simp add: search_documents_def search_ranked_def)

lemma keeps_cong:
  "document_filter flt = document_filter flt' \<Longrightarrow> page_filter flt = page_filter flt' \<Longrightarrow>
   confidence_filter flt = confidence_filter flt' \<Longrightarrow> keeps flt = keeps flt'"
  unfolding keeps_def by presburger

lemma filter_loop_cong:
  "keeps flt = keeps flt' \<Longrightarrow> filter_loop flt k xs acc = filter_loop flt' k xs acc"
proof (induction xs arbitrary: acc)
  case Nil
  show ?case by simp
next
  case (Cons x xs)
  obtain idx data where x: "x = (idx, data)" by (cases x)
  show ?case
    unfolding x filter_loop.simps Cons.prems
    by (simp add: Cons.IH[OF Cons.prems] Let_def split: sum.splits)
qed

lemma search_documents_cong:
  "keeps flt = keeps flt' \<Longrightarrow>
   search_documents E s query top_k flt = search_documents E s query top_k flt'"
  by (simp add: search_documents_def search_ranked_def filter_loop_cong[of flt flt'] Let_def
      split: sum.splits)

text \<open>
  Claim C10. Filters are tested by truthiness: a \<open>min_confidence\<close> of 0 gives the same
  result as no \<open>min_confidence\<close>, and the empty \<open>document\<close> string the same as no
  \<open>document\<close>, whatever the other filters, the query and \<open>top_k\<close>.
\<close>

theorem falsy_filter_values_ignored:
  "search_documents E s query top_k (Some (f\<lparr>min_confidence := Some 0\<rparr>))
     = search_documents E s query top_k (Some (f\<lparr>min_confidence := None\<rparr>))
   \<and> search_documents E s query top_k (Some (f\<lparr>document := Some []\<rparr>))
     = search_documents E s query top_k (Some (f\<lparr>document := None\<rparr>))"
proof
  show "search_documents E s query top_k (Some (f\<lparr>min_confidence := Some 0\<rparr>))
     = search_documents E s query top_k (Some (f\<lparr>min_confidence := None\<rparr>))"
    by (rule search_documents_cong, rule keeps_cong)
       (simp_all add: document_filter_def page_filter_def confidence_filter_def truthy_get_def)
  show "search_documents E s query top_k (Some (f\<lparr>document := Some []\<rparr>))
     = search_documents E s query top_k (Some (f\<lparr>document := None\<rparr>))"
    by (rule search_documents_cong, rule keeps_cong)
       (simp_all add: document_filter_def page_filter_def confidence_filter_def truthy_get_def)
qed

subsection \<open>Scores in floating point\<close>

lemma round_half_even_bounds: "\<lfloor>x\<rfloor> \<le> round_half_even x" "round_half_even x \<le> \<lfloor>x\<rfloor> + 1"
  by (simp_all add: round_half_even_def Let_def)

lemma round_half_even_of_int: "round_half_even (of_int k) = k"
  by (simp add: round_half_even_def Let_def)

lemma round_half_even_mono:
  assumes "x \<le> y" shows "round_half_even x \<le> round_half_even y"
proof (cases "\<lfloor>x\<rfloor> = \<lfloor>y\<rfloor>")
  case True
  with assms show ?thesis by (auto simp: round_half_even_def Let_def)
next
  case False
  with assms have "\<lfloor>x\<rfloor> + 1 \<le> \<lfloor>y\<rfloor>" using floor_mono[OF assms] by linarith
  with round_half_even_bounds[of x] round_half_even_bounds[of y] show ?thesis by linarith
qed

lemma exponent_bounds:
  assumes "0 < x"
  shows "2 powr of_int \<lfloor>log 2 x\<rfloor> \<le> x" "x < 2 powr of_int (\<lfloor>log 2 x\<rfloor> + 1)"
proof -
  have "2 powr of_int \<lfloor>log 2 x\<rfloor> \<le> 2 powr log 2 x" by (rule powr_mono) simp_all
  with assms show "2 powr of_int \<lfloor>log 2 x\<rfloor> \<le> x" by simp
  have "2 powr log 2 x < 2 powr of_int (\<lfloor>log 2 x\<rfloor> + 1)" by (rule powr_less_mono) simp_all
  with assms show "x < 2 powr of_int (\<lfloor>log 2 x\<rfloor> + 1)" by simp
qed

lemma two_powr_int: "2 powr of_int (int n) = (of_int (2 ^ n) :: real)"
  by (simp add: powr_realpow)

lemma float_round_range:
  assumes "0 < x" "0 < p"
  shows "2 powr of_int \<lfloor>log 2 x\<rfloor> \<le> float_round p x"
    and "float_round p x \<le> 2 powr of_int (\<lfloor>log 2 x\<rfloor> + 1)"
proof -
  define e where "e = \<lfloor>log 2 x\<rfloor>"
  define u :: real where "u = 2 powr of_int (e - int p + 1)"
  have u: "0 < u" by (simp add: u_def)
  have fl: "float_round p x = of_int (round_half_even (x / u)) * u"
    using assms(1) by (simp add: float_round_def u_def e_def Let_def)
  have lo: "2 powr of_int e = of_int (2 ^ (p - 1)) * u"
  proof -
    have "of_int (2 ^ (p - 1)) * u = 2 powr of_int (int (p - 1)) * 2 powr of_int (e - int p + 1)"
      unfolding two_powr_int u_def ..
    also have "\<dots> = 2 powr (of_int (int (p - 1)) + of_int (e - int p + 1))"
      by (simp only: powr_add)
    also have "of_int (int (p - 1)) + of_int (e - int p + 1) = (of_int e :: real)"
      using assms(2) by (simp add: of_nat_diff)
    finally show ?thesis by simp
  qed
  have hi: "2 powr of_int (e + 1) = of_int (2 ^ p) * u"
  proof -
    have "of_int (2 ^ p) * u = 2 powr of_int (int p) * 2 powr of_int (e - int p + 1)"
      unfolding two_powr_int u_def ..
    also have "\<dots> = 2 powr (of_int (int p) + of_int (e - int p + 1))"
      by (simp only: powr_add)
    also have "of_int (int p) + of_int (e - int p + 1) = (of_int (e + 1) :: real)"
      by simp
    finally show ?thesis by simp
  qed
  from exponent_bounds[OF assms(1)] have "of_int (2 ^ (p - 1)) * u \<le> x" "x \<le> of_int (2 ^ p) * u"
    unfolding e_def[symmetric] lo hi by simp_all
  with u have "of_int (2 ^ (p - 1)) \<le> x / u" "x / u \<le> of_int (2 ^ p)"
    by (simp_all add: field_simps)
  then have "round_half_even (of_int (2 ^ (p - 1))) \<le> round_half_even (x / u)"
    "round_half_even (x / u) \<le> round_half_even (of_int (2 ^ p))"
    by (simp_all only: round_half_even_mono)
  then have "(of_int (2 ^ (p - 1)) :: real) \<le> of_int (round_half_even (x / u))"
    "(of_int (round_half_even (x / u)) :: real) \<le> of_int (2 ^ p)"
    unfolding round_half_even_of_int by linarith+
  with u have "of_int (2 ^ (p - 1)) * u \<le> float_round p x" "float_round p x \<le> of_int (2 ^ p) * u"
    unfolding fl by (simp_all add: mult_right_mono)
  then show "2 powr of_int \<lfloor>log 2 x\<rfloor> \<le> float_round p x"
    and "float_round p x \<le> 2 powr of_int (\<lfloor>log 2 x\<rfloor> + 1)"
    unfolding e_def[symmetric] lo hi by simp_all
qed

lemma float_round_mono:
  assumes "0 \<le> x" "x \<le> y" "0 < p"
  shows "float_round p x \<le> float_round p y"
proof (cases "x = 0")
  case True
  show ?thesis
  proof (cases "y = 0")
    case True
    with \<open>x = 0\<close> show ?thesis by simp
  next
    case False
    with assms have "0 < y" by simp
    from float_round_range(1)[OF this assms(3)] have "0 < float_round p y"
      by (rule less_le_trans[rotated]) simp
    with \<open>x = 0\<close> show ?thesis by (simp add: float_round_def)
  qed
next
  case False
  with assms have x: "0 < x" and y: "0 < y" by simp_all
  have le: "\<lfloor>log 2 x\<rfloor> \<le> \<lfloor>log 2 y\<rfloor>"
    using x assms(2) by (intro floor_mono) simp
  show ?thesis
  proof (cases "\<lfloor>log 2 x\<rfloor> = \<lfloor>log 2 y\<rfloor>")
    case True
    define u :: real where "u = 2 powr of_int (\<lfloor>log 2 y\<rfloor> - int p + 1)"
    have u: "0 < u" by (simp add: u_def)
    have "x / u \<le> y / u" using assms(2) u by (simp add: divide_right_mono)
    then have "round_half_even (x / u) \<le> round_half_even (y / u)" by (rule round_half_even_mono)
    then have "of_int (round_half_even (x / u)) * u \<le> of_int (round_half_even (y / u)) * u"
      using u by (simp add: mult_right_mono)
    then show ?thesis using x y True by (simp add: float_round_def Let_def u_def)
  next
    case False
    with le have "\<lfloor>log 2 x\<rfloor> + 1 \<le> \<lfloor>log 2 y\<rfloor>" by simp
    then have "(2::real) powr of_int (\<lfloor>log 2 x\<rfloor> + 1) \<le> 2 powr of_int \<lfloor>log 2 y\<rfloor>"
      by (intro powr_mono) simp_all
    with float_round_range(2)[OF x assms(3)] float_round_range(1)[OF y assms(3)]
    show ?thesis by linarith
  qed
qed

lemma float_round_scaled:
  assumes "0 < p" "2 ^ (p - 1) \<le> m" "m < 2 ^ p" "0 \<le> \<delta>" "\<delta> < 1"
  shows "float_round p ((of_int m + \<delta>) * 2 powr of_int k)
       = of_int (round_half_even (of_int m + \<delta>)) * 2 powr of_int k"
proof -
  define y where "y = of_int m + \<delta>"
  have m0: "0 < m" using assms(2) by (rule less_le_trans[rotated]) simp
  then have y0: "0 < y" using assms(4) by (simp add: y_def)
  have lo: "(2::real) ^ (p - 1) \<le> y"
  proof -
    have "(of_int (2 ^ (p - 1)) :: real) \<le> of_int m" using assms(2) by (simp only: of_int_le_iff)
    then have "(2::real) ^ (p - 1) \<le> of_int m" by simp
    then show ?thesis using assms(4) unfolding y_def by linarith
  qed
  have hi: "y < 2 ^ p"
  proof -
    have "m + 1 \<le> 2 ^ p" using assms(3) by simp
    then have "(of_int (m + 1) :: real) \<le> of_int (2 ^ p)" by (simp only: of_int_le_iff)
    then have "of_int m + 1 \<le> (2::real) ^ p" by simp
    then show ?thesis using assms(5) unfolding y_def by linarith
  qed
  have pw: "log 2 ((2::real) ^ n) = real n" for n by (rule log_pow_cancel) simp_all
  have "log 2 (2 ^ (p - 1)) \<le> log 2 y"
    using lo y0 by (subst log_le_cancel_iff) simp_all
  then have "real (p - 1) \<le> log 2 y" unfolding pw .
  then have l1: "of_int (int p - 1) \<le> log 2 y" using assms(1) by (simp add: of_nat_diff)
  have "log 2 y < log 2 (2 ^ p)"
    using hi y0 by (subst log_less_cancel_iff) simp_all
  then have "log 2 y < real p" unfolding pw .
  then have l2: "log 2 y < of_int (int p - 1) + 1" by simp
  have fl: "\<lfloor>log 2 y\<rfloor> = int p - 1" using l1 l2 by (simp only: floor_unique)
  have "log 2 (y * 2 powr of_int k) = log 2 y + of_int k"
    using y0 by (simp add: log_mult)
  then have e: "\<lfloor>log 2 \<bar>y * 2 powr of_int k\<bar>\<rfloor> = int p - 1 + k"
    using y0 fl by (simp add: abs_mult)
  have nz: "y * 2 powr of_int k \<noteq> 0" using y0 by simp
  show ?thesis
    unfolding y_def[symmetric] float_round_def using nz e by (simp add: Let_def)
qed

lemma float_round_one: "0 < p \<Longrightarrow> float_round p 1 = 1"
proof -
  assume p: "0 < p"
  have "float_round p ((of_int (2 ^ (p - 1)) + 0) * 2 powr of_int (- int (p - 1)))
      = of_int (round_half_even (of_int (2 ^ (p - 1)) + 0)) * 2 powr of_int (- int (p - 1))"
    using p by (intro float_round_scaled) simp_all
  moreover have "(of_int (2 ^ (p - 1)) + 0) * 2 powr of_int (- int (p - 1)) = (1::real)"
    by (simp add: powr_minus powr_realpow field_simps)
  ultimately have "float_round p 1 = of_int (round_half_even (of_int (2 ^ (p - 1)))) * 2 powr of_int (- int (p - 1))"
    by simp
  also have "\<dots> = of_int (2 ^ (p - 1)) * 2 powr of_int (- int (p - 1))"
    by (simp only: round_half_even_of_int)
  also have "\<dots> = 1" by (simp add: powr_minus powr_realpow field_simps)
  finally show ?thesis .
qed

lemma rounding_float_round: "0 < p \<Longrightarrow> rounding (float_round p)"
  unfolding rounding_def using float_round_one float_round_mono by (auto simp: float_round_def)


lemma round_half_even_below_half:
  assumes "0 \<le> \<delta>" "\<delta> < 1 / 2" shows "round_half_even (of_int m + \<delta>) = m"
proof -
  have "\<lfloor>of_int m + \<delta>\<rfloor> = m" using assms by (intro floor_unique) simp_all
  then show ?thesis using assms by (simp add: round_half_even_def Let_def)
qed

lemma round_half_even_tie:
  assumes "even m" shows "round_half_even (of_int m + 1 / 2) = m"
proof -
  have "\<lfloor>of_int m + (1 / 2 :: real)\<rfloor> = m" by (intro floor_unique) simp_all
  then show ?thesis using assms by (simp add: round_half_even_def Let_def)
qed

lemma float_round_absorbs:
  assumes "0 < p" "0 \<le> \<delta>" "\<delta> * 2 ^ p < 1"
  shows "float_round p (1 + \<delta>) = 1"
proof -
  define \<epsilon> where "\<epsilon> = \<delta> * 2 ^ (p - 1)"
  have pw: "(2::real) ^ p = 2 * 2 ^ (p - 1)" using assms(1) by (cases p) simp_all
  have e: "0 \<le> \<epsilon>" "\<epsilon> < 1 / 2" using assms(2,3) unfolding \<epsilon>_def pw by simp_all
  have scale: "(2::real) ^ (p - 1) * 2 powr of_int (- int (p - 1)) = 1"
    by (simp add: powr_minus powr_realpow field_simps)
  have "(of_int (2 ^ (p - 1)) + \<epsilon>) * 2 powr of_int (- int (p - 1))
      = 2 ^ (p - 1) * 2 powr of_int (- int (p - 1)) + \<delta> * (2 ^ (p - 1) * 2 powr of_int (- int (p - 1)))"
    unfolding \<epsilon>_def by (simp add: algebra_simps)
  also have "\<dots> = 1 + \<delta>" unfolding scale by simp
  finally have arg: "(of_int (2 ^ (p - 1)) + \<epsilon>) * 2 powr of_int (- int (p - 1)) = 1 + \<delta>" .
  have "float_round p ((of_int (2 ^ (p - 1)) + \<epsilon>) * 2 powr of_int (- int (p - 1)))
      = of_int (round_half_even (of_int (2 ^ (p - 1)) + \<epsilon>)) * 2 powr of_int (- int (p - 1))"
    using assms(1) e by (intro float_round_scaled) simp_all
  also have "\<dots> = of_int (2 ^ (p - 1)) * 2 powr of_int (- int (p - 1))"
    using e by (simp only: round_half_even_below_half)
  also have "\<dots> = 1" using scale by simp
  finally show ?thesis unfolding arg .
qed

lemma float32_tie: "float32 (1 + (1 + 1 / 2 ^ 23)) = float32 (1 + 1)"
proof -
  have "float_round 24 ((of_int (2 ^ 23) + 1 / 2) * 2 powr of_int (- 22))
      = of_int (round_half_even (of_int (2 ^ 23) + 1 / 2)) * 2 powr of_int (- 22)"
    by (intro float_round_scaled) simp_all
  also have "round_half_even (of_int (2 ^ 23) + 1 / 2) = 2 ^ 23"
    by (rule round_half_even_tie) simp
  finally have a: "float_round 24 ((of_int (2 ^ 23) + 1 / 2) * 2 powr of_int (- 22))
      = of_int (2 ^ 23) * 2 powr of_int (- 22)" .
  have "float_round 24 ((of_int (2 ^ 23) + 0) * 2 powr of_int (- 22))
      = of_int (round_half_even (of_int (2 ^ 23) + 0)) * 2 powr of_int (- 22)"
    by (intro float_round_scaled) simp_all
  also have "round_half_even (of_int (2 ^ 23) + 0) = 2 ^ 23"
    by (rule round_half_even_below_half) simp_all
  finally have b: "float_round 24 ((of_int (2 ^ 23) + 0) * 2 powr of_int (- 22))
      = of_int (2 ^ 23) * 2 powr of_int (- 22)" .
  have x: "(of_int (2 ^ 23) + 1 / 2) * 2 powr of_int (- 22) = (1 + (1 + 1 / 2 ^ 23) :: real)"
    by (simp add: powr_minus field_simps)
  have y: "(of_int (2 ^ 23) + 0) * 2 powr of_int (- 22) = (1 + 1 :: real)"
    by (simp add: powr_minus field_simps)
  from a b show ?thesis unfolding float32_def x y by simp
qed

lemma float_score_candidate_exact:
  "float_score_candidate (\<lambda>x. x) (\<lambda>x. x) cs bm d i = score_candidate cs bm d i"
  by (simp add: float_score_candidate_def score_candidate_def)

lemma data_float_score_candidate:
  "data_score (float_score_candidate np py cs bm d i) =
     py (py (py 0.6 * np (1 / np (1 + d)))
         + py (py 0.4 * (if bm25_lookup bm i > 0 then py (bm25_lookup bm i / 10) else 0)))"
  by (simp only: float_score_candidate_def Let_def scored.simps)

text \<open>
  Claim C7, amended. Of two candidates with the same keyword score, the one at the smaller
  distance has a combined score at least as high (distances are not negative): for every
  rounding of the NumPy operations and every rounding of the Python operations that keep 0
  and 1 and are monotone, as rounding to nearest is. The score of the closer one need not
  be strictly higher: two distances can round to the same sum \<^verbatim>\<open>1 + dist\<close>.
\<close>

theorem closer_candidate_scores_not_lower:
  assumes "rounding np" and "rounding py"
    and "0 \<le> d1" and "d1 \<le> d2" and "bm25_lookup bm i1 = bm25_lookup bm i2"
  shows "data_score (float_score_candidate np py cs bm d2 i2)
       \<le> data_score (float_score_candidate np py cs bm d1 i1)"
proof -
  have np: "np 0 = 0" "np 1 = 1" "\<And>x y. 0 \<le> x \<Longrightarrow> x \<le> y \<Longrightarrow> np x \<le> np y"
    using assms(1) by (simp_all add: rounding_def)
  have py: "py 0 = 0" "\<And>x y. 0 \<le> x \<Longrightarrow> x \<le> y \<Longrightarrow> py x \<le> py y"
    using assms(2) by (simp_all add: rounding_def)
  have pos: "0 \<le> py x" if "0 \<le> x" for x using py(2)[of 0 x] that py(1) by simp
  define s1 s2 where "s1 = np (1 + d1)" and "s2 = np (1 + d2)"
  have "np 1 \<le> np (1 + d1)" using assms(3) by (intro np(3)) simp_all
  then have s1: "1 \<le> s1" unfolding s1_def np(2) .
  have s12: "s1 \<le> s2" unfolding s1_def s2_def using assms(3,4) by (intro np(3)) simp_all
  have inv: "0 \<le> 1 / s2" "1 / s2 \<le> 1 / s1" using s1 s12 by (simp_all add: frac_le)
  define v1 v2 where "v1 = np (1 / s1)" and "v2 = np (1 / s2)"
  have v: "0 \<le> v2" "v2 \<le> v1"
  proof -
    show "v2 \<le> v1" unfolding v1_def v2_def using inv by (intro np(3))
    have "np 0 \<le> np (1 / s2)" using inv(1) by (intro np(3)) simp_all
    then show "0 \<le> v2" unfolding v2_def np(1) .
  qed
  have c: "0 \<le> py 0.6" "0 \<le> py 0.4" by (simp_all add: pos)
  have a: "0 \<le> py (py 0.6 * v2)" "py (py 0.6 * v2) \<le> py (py 0.6 * v1)"
    using c(1) v by (simp_all add: pos py(2) mult_left_mono)
  define k where
    "k = py (py 0.4 * (if bm25_lookup bm i2 > 0 then py (bm25_lookup bm i2 / 10) else 0))"
  have "0 \<le> (if bm25_lookup bm i2 > 0 then py (bm25_lookup bm i2 / 10) else 0)"
    by (simp add: pos)
  with c(2) have "0 \<le> py 0.4 * (if bm25_lookup bm i2 > 0 then py (bm25_lookup bm i2 / 10) else 0)"
    by (rule mult_nonneg_nonneg)
  then have k: "0 \<le> k" unfolding k_def by (rule pos)
  have "py (py (py 0.6 * v2) + k) \<le> py (py (py 0.6 * v1) + k)"
    using a k by (intro py(2)) simp_all
  then show ?thesis
    unfolding data_float_score_candidate assms(5) k_def v1_def v2_def s1_def s2_def .
qed

text \<open>In exact arithmetic the closer candidate's score is strictly higher.\<close>

lemma data_score_candidate:
  "data_score (score_candidate cs bm d i) =
     0.6 * (1 / (1 + d)) + 0.4 * (if bm25_lookup bm i > 0 then bm25_lookup bm i / 10 else 0)"
  by (simp only: score_candidate_def Let_def scored.simps)

lemma exact_scores_strict:
  assumes "0 \<le> d1" and "d1 < d2" and "bm25_lookup bm i1 = bm25_lookup bm i2"
  shows "data_score (score_candidate cs bm d2 i2) < data_score (score_candidate cs bm d1 i1)"
proof -
  have "1 / (1 + d2) < 1 / (1 + d1)"
    using assms(1,2) by (simp add: frac_less2)
  then have "(0.6::real) * (1 / (1 + d2)) < 0.6 * (1 / (1 + d1))"
    by (rule mult_strict_left_mono) simp
  then show ?thesis
    unfolding data_score_candidate assms(3) by (rule add_strict_right_mono)
qed

subsection \<open>Scores of the candidates\<close>

text \<open>
  Claim C2. For every candidate \<open>(d, idx)\<close> of the vector search whose position is a chunk
  position (the search returns a position once, and distances are not negative), the
  entry stored for \<open>idx\<close> has \<open>vector_score = 1 / (1 + d)\<close> and
  \<open>score = 0.6 * vector_score + 0.4 * (bm25_score / 10 if bm25_score > 0 else 0)\<close>, where
  \<open>bm25_score\<close> is the keyword score at \<open>idx\<close>, and 0 when \<open>idx\<close> is beyond the scores or
  there is no keyword index.
\<close>

theorem candidate_scores:
  assumes "candidates E s query top_k = Inr cands"
    and "distinct (map snd cands)"
    and "(d, idx) \<in> set cands" and "0 \<le> d" and "idx < length (chunks s)"
  shows "\<exists>data. map_of (combined_results_of E s query cands) idx = Some data
           \<and> data_chunk data = chunks s ! idx
           \<and> data_vector_score data = 1 / (1 + d)
           \<and> data_score data = 0.6 * data_vector_score data
                + 0.4 * (if data_bm25_score data > 0 then data_bm25_score data / 10 else 0)
           \<and> data_bm25_score data =
                (if idx < length (bm25_scores_of E s query)
                 then bm25_scores_of E s query ! idx else 0)
           \<and> (bm25 s = None \<longrightarrow> data_bm25_score data = 0)"
proof -
  have "map_of (combined_results_of E s query cands) idx
          = Some (score_candidate (chunks s) (bm25_scores_of E s query) d idx)"
    unfolding combined_results_of_def using assms(2,3,5) by (rule combine_present)
  moreover have "bm25 s = None \<Longrightarrow> bm25_scores_of E s query = []"
    by (simp add: bm25_scores_of_def)
  ultimately show ?thesis
    by (auto simp: score_candidate_def Let_def bm25_lookup_def)
qed

lemma annotate_simps:
  "filename (annotate data) = filename (data_chunk data)"
  "page_number (annotate data) = page_number (data_chunk data)"
  "relevance_score (annotate data) = data_score data"
  "vector_score (annotate data) = data_vector_score data"
  "bm25_score (annotate data) = data_bm25_score data"
  by (simp_all add: annotate_def chunk.defs result.defs)

lemma distinct_keys_insort:
  "distinct (map fst (insort_key k x xs)) = (fst x \<notin> fst ` set xs \<and> distinct (map fst xs))"
  by (induction xs) (auto simp: set_insort_key)

lemma distinct_keys_sort:
  "distinct (map fst (sort_key k xs)) = distinct (map fst xs)"
  by (induction xs) (simp_all add: distinct_keys_insort)

lemma window_distinct:
  assumes "distinct (map fst items)"
  shows "distinct (map fst (take n (sorted_results items)))"
proof -
  have "distinct (map fst (sorted_results items))"
    using assms by (simp add: sorted_results_def distinct_keys_sort)
  then show ?thesis by (simp add: take_map[symmetric] distinct_take)
qed

lemma window_sorted:
  "sorted_wrt (\<lambda>x y. data_score (snd x) \<ge> data_score (snd y)) (take n (sorted_results items))"
proof -
  have "sorted (map (\<lambda>x. - data_score (snd x)) (sorted_results items))"
    unfolding sorted_results_def by (rule sorted_sort_key)
  then have "sorted_wrt (\<lambda>x y. data_score (snd x) \<ge> data_score (snd y)) (sorted_results items)"
    by (simp add: sorted_wrt_map)
  then show ?thesis by (rule sorted_wrt_take)
qed

lemma window_ties:
  "subseq (filter (\<lambda>x. data_score (snd x) = v) (take n (sorted_results items))) items"
proof -
  let ?P = "\<lambda>x. data_score (snd x) = v"
  have "filter ?P (sorted_results items) = filter (\<lambda>x. - data_score (snd x) = - v) (sorted_results items)"
    by simp
  also have "\<dots> = filter (\<lambda>x. - data_score (snd x) = - v) items"
    unfolding sorted_results_def by (rule sort_key_stable)
  finally have stable: "filter ?P (sorted_results items) = filter ?P items" by simp
  have "subseq (take n (sorted_results items)) (sorted_results items)"
    by (metis append_take_drop_id subseq_rev_drop_many subseq_order.order_refl)
  then have "subseq (filter ?P (take n (sorted_results items))) (filter ?P (sorted_results items))"
    by (rule subseq_filter)
  then have "subseq (filter ?P (take n (sorted_results items))) (filter ?P items)"
    by (simp only: stable)
  moreover have "subseq (filter ?P items) items" by simp
  ultimately show ?thesis by (rule subseq_order.trans)
qed

lemma search_ranked_cases:
  assumes "search_ranked E s query top_k flt = Inr ranked"
  obtains (empty) "ntotal s = 0" "ranked = []"
  | (searched) cands where "ntotal s \<noteq> 0" "candidates E s query top_k = Inr cands"
      "filter_loop flt top_k
         (py_prefix (sorted_results (combined_results_of E s query cands)) (top_k * 2)) []
       = Inr ranked"
  using assms by (auto simp: search_ranked_def Let_def split: if_splits sum.splits)

lemma search_documents_ranked:
  assumes "search_documents E s query top_k flt = Inr rs"
  obtains ranked where "search_ranked E s query top_k flt = Inr ranked"
    "rs = map (\<lambda>x. annotate (snd x)) ranked"
  using assms by (auto simp: search_documents_def split: sum.splits)

text \<open>
  Claim C3. For \<open>top_k \<ge> 0\<close>, the results of \<^verbatim>\<open>search_documents\<close> are the annotated
  chunks of a list of positions that holds no position twice; they are sorted by
  descending \<open>relevance_score\<close>; there are at most \<open>top_k\<close> of them; they are a subsequence
  of the first \<open>top_k * 2\<close> sorted candidates; and results of equal score stand in the order
  in which their positions entered \<^verbatim>\<open>combined_results\<close>, which is the order in which the
  vector search returned them.
\<close>

theorem search_documents_ranking:
  assumes run: "search_documents E s query top_k flt = Inr rs" and k: "0 \<le> top_k"
  shows "\<exists>ranked. rs = map (\<lambda>x. annotate (snd x)) ranked
     \<and> distinct (map fst ranked)
     \<and> sorted_wrt (\<lambda>a b. relevance_score a \<ge> relevance_score b) rs
     \<and> int (length rs) \<le> top_k
     \<and> (ntotal s \<noteq> 0 \<longrightarrow> (\<exists>cands. candidates E s query top_k = Inr cands
          \<and> subseq (map fst (combined_results_of E s query cands)) (map snd cands)
          \<and> subseq ranked
               (py_prefix (sorted_results (combined_results_of E s query cands)) (top_k * 2))
          \<and> int (length (py_prefix (sorted_results (combined_results_of E s query cands))
                            (top_k * 2))) \<le> top_k * 2
          \<and> (\<forall>v. subseq (filter (\<lambda>x. data_score (snd x) = v) ranked)
                        (combined_results_of E s query cands))))"
proof -
  from run obtain ranked where ranked: "search_ranked E s query top_k flt = Inr ranked"
    and rs: "rs = map (\<lambda>x. annotate (snd x)) ranked"
    by (rule search_documents_ranked)
  from ranked show ?thesis
  proof (cases rule: search_ranked_cases)
    case empty
    then show ?thesis using rs k by simp
  next
    case (searched cands)
    let ?items = "combined_results_of E s query cands"
    let ?W = "py_prefix (sorted_results ?items) (top_k * 2)"
    have W: "?W = take (nat (top_k * 2)) (sorted_results ?items)"
      using k by (simp add: py_prefix_take)
    from filter_loop_result[OF searched(3)]
    have sub: "subseq ranked ?W" by auto
    have "distinct (map fst ?items)"
      unfolding combined_results_of_def by (rule combine_distinct) simp
    then have "distinct (map fst ?W)" unfolding W by (rule window_distinct)
    moreover have "subseq (map fst ranked) (map fst ?W)" using sub by (rule subseq_map)
    ultimately have dist: "distinct (map fst ranked)" by (rule subseq_distinct[rotated])
    have "sorted_wrt (\<lambda>x y. data_score (snd x) \<ge> data_score (snd y)) ?W"
      unfolding W by (rule window_sorted)
    with sub have "sorted_wrt (\<lambda>x y. data_score (snd x) \<ge> data_score (snd y)) ranked"
      by (rule subseq_sorted_wrt)
    then have srt: "sorted_wrt (\<lambda>a b. relevance_score a \<ge> relevance_score b) rs"
      unfolding rs by (simp add: sorted_wrt_map annotate_simps)
    have len: "int (length rs) \<le> top_k"
    proof (cases "top_k = 0")
      case True
      with W have "?W = []" by simp
      with searched(3) have "ranked = []" by simp
      then show ?thesis using rs k by simp
    next
      case False
      with k have "int (length ([] :: (nat \<times> scored) list)) < top_k" by simp
      with searched(3) have "int (length ranked) \<le> top_k" by (rule filter_loop_length)
      then show ?thesis by (simp add: rs)
    qed
    have keys: "subseq (map fst ?items) (map snd cands)"
      using combine_keys[of "chunks s" "bm25_scores_of E s query" cands "[]"]
      by (simp add: combined_results_of_def)
    have wlen: "int (length ?W) \<le> top_k * 2" using k by (simp add: W)
    have ties: "\<forall>v. subseq (filter (\<lambda>x. data_score (snd x) = v) ranked) ?items"
    proof
      fix v
      have "subseq (filter (\<lambda>x. data_score (snd x) = v) ranked)
                   (filter (\<lambda>x. data_score (snd x) = v) ?W)"
        using sub by (rule subseq_filter)
      moreover have "subseq (filter (\<lambda>x. data_score (snd x) = v) ?W) ?items"
        unfolding W by (rule window_ties)
      ultimately show "subseq (filter (\<lambda>x. data_score (snd x) = v) ranked) ?items"
        by (rule subseq_order.trans)
    qed
    have "\<exists>cands. candidates E s query top_k = Inr cands
          \<and> subseq (map fst (combined_results_of E s query cands)) (map snd cands)
          \<and> subseq ranked
               (py_prefix (sorted_results (combined_results_of E s query cands)) (top_k * 2))
          \<and> int (length (py_prefix (sorted_results (combined_results_of E s query cands))
                            (top_k * 2))) \<le> top_k * 2
          \<and> (\<forall>v. subseq (filter (\<lambda>x. data_score (snd x) = v) ranked)
                        (combined_results_of E s query cands))"
      using searched(2) keys sub wlen ties by (intro exI[of _ cands] conjI)
    with rs dist srt len show ?thesis
      by (intro exI[of _ ranked] conjI impI)
  qed
qed

lemma subseq_subset: "subseq ys xs \<Longrightarrow> set ys \<subseteq> set xs"
  by (induction rule: list_emb.induct) auto

lemma py_prefix_subset: "set (py_prefix xs n) \<subseteq> set xs"
proof -
  have "set (take a (drop b xs)) \<subseteq> set xs" for a b
    using set_take_subset[of a "drop b xs"] set_drop_subset[of b xs] by (rule order_trans)
  then show ?thesis by (simp add: py_prefix_def py_slice_def Let_def)
qed

lemma keeps_true:
  assumes "keeps flt data = Inr True"
  shows "document_filter flt = Some d \<Longrightarrow> filename (data_chunk data) = d"
    and "page_filter flt = Some (lo # hi # extra) \<Longrightarrow>
           lo \<le> int (page_number (data_chunk data)) \<and> int (page_number (data_chunk data)) \<le> hi"
    and "confidence_filter flt = Some m \<Longrightarrow> m \<le> data_score data"
  using assms by (auto simp: keeps_def split: option.splits list.splits if_splits)

lemma score_candidate_positive:
  assumes "0 \<le> d" shows "0 < data_score (score_candidate cs bm d i)"
proof -
  have "0 < (0.6::real) * (1 / (1 + d))" using assms by simp
  moreover have "0 \<le> (0.4::real) * (if bm25_lookup bm i > 0 then bm25_lookup bm i / 10 else 0)"
    by simp
  ultimately show ?thesis unfolding data_score_candidate by (rule add_pos_nonneg)
qed

text \<open>
  Claim C4, amended. Of the results of \<^verbatim>\<open>search_documents\<close>: with a non-empty
  \<open>document\<close> filter every result has that filename; with a \<open>page_range\<close> starting
  \<open>[min, max]\<close> every result has its page number between them, bounds included; with a
  \<open>min_confidence\<close> every result has at least that \<open>relevance_score\<close>, for a threshold
  of 0 (which is not applied) because the scores of non-negative distances are positive.
\<close>

theorem filters_applied:
  assumes run: "search_documents E s query top_k (Some f) = Inr rs"
  shows "(\<forall>d. document f = Some d \<longrightarrow> d \<noteq> [] \<longrightarrow> (\<forall>r\<in>set rs. filename r = d))
       \<and> (\<forall>lo hi extra. page_range f = Some (lo # hi # extra) \<longrightarrow>
             (\<forall>r\<in>set rs. lo \<le> int (page_number r) \<and> int (page_number r) \<le> hi))
       \<and> (\<forall>m. min_confidence f = Some m \<longrightarrow>
             (m \<noteq> 0 \<or> (\<forall>cands. candidates E s query top_k = Inr cands \<longrightarrow>
                            (\<forall>c\<in>set cands. 0 \<le> fst c))) \<longrightarrow>
             (\<forall>r\<in>set rs. m \<le> relevance_score r))"
proof -
  from run obtain ranked where ranked: "search_ranked E s query top_k (Some f) = Inr ranked"
    and rs: "rs = map (\<lambda>x. annotate (snd x)) ranked"
    by (rule search_documents_ranked)
  have kept: "\<forall>x\<in>set ranked. keeps (Some f) (snd x) = Inr True"
    and pos: "(\<forall>cands. candidates E s query top_k = Inr cands \<longrightarrow> (\<forall>c\<in>set cands. 0 \<le> fst c))
              \<Longrightarrow> \<forall>x\<in>set ranked. 0 < data_score (snd x)"
  proof -
    from ranked show "\<forall>x\<in>set ranked. keeps (Some f) (snd x) = Inr True"
    proof (cases rule: search_ranked_cases)
      case empty
      then show ?thesis by simp
    next
      case (searched cands)
      from filter_loop_result[OF searched(3)] show ?thesis by auto
    qed
    assume nonneg: "\<forall>cands. candidates E s query top_k = Inr cands \<longrightarrow> (\<forall>c\<in>set cands. 0 \<le> fst c)"
    from ranked show "\<forall>x\<in>set ranked. 0 < data_score (snd x)"
    proof (cases rule: search_ranked_cases)
      case empty
      then show ?thesis by simp
    next
      case (searched cands)
      let ?items = "combined_results_of E s query cands"
      from filter_loop_result[OF searched(3)]
      have sub: "subseq ranked (py_prefix (sorted_results ?items) (top_k * 2))" by auto
      have "set (py_prefix (sorted_results ?items) (top_k * 2)) \<subseteq> set ?items"
        using py_prefix_subset[of "sorted_results ?items"] by (simp add: sorted_results_def)
      moreover from sub have "set ranked \<subseteq> set (py_prefix (sorted_results ?items) (top_k * 2))"
        by (rule subseq_subset)
      ultimately have "set ranked \<subseteq> set ?items" by (rule order_trans[rotated])
      moreover have "\<forall>x\<in>set ?items. 0 < data_score (snd x)"
      proof
        fix x assume "x \<in> set ?items"
        then have "(fst x, snd x) \<in> set (combine (chunks s) (bm25_scores_of E s query) cands [])"
          by (simp add: combined_results_of_def)
        from combine_entries[OF this] obtain d where
          "(d, fst x) \<in> set cands" "snd x = score_candidate (chunks s) (bm25_scores_of E s query) d (fst x)"
          by auto
        moreover from this(1) nonneg searched(2) have "0 \<le> d" by fastforce
        ultimately show "0 < data_score (snd x)" by (simp add: score_candidate_positive)
      qed
      ultimately show ?thesis by blast
    qed
  qed
  have doc: "\<forall>d. document f = Some d \<longrightarrow> d \<noteq> [] \<longrightarrow> (\<forall>r\<in>set rs. filename r = d)"
  proof (intro allI impI ballI)
    fix d r assume "document f = Some d" "d \<noteq> []" "r \<in> set rs"
    then have "document_filter (Some f) = Some d"
      by (simp add: document_filter_def truthy_get_def)
    moreover from \<open>r \<in> set rs\<close> obtain x where "x \<in> set ranked" "r = annotate (snd x)"
      unfolding rs by auto
    ultimately show "filename r = d"
      using kept keeps_true(1)[of "Some f" "snd x" d] by (simp add: annotate_simps)
  qed
  have page: "\<forall>lo hi extra. page_range f = Some (lo # hi # extra) \<longrightarrow>
             (\<forall>r\<in>set rs. lo \<le> int (page_number r) \<and> int (page_number r) \<le> hi)"
  proof (intro allI impI ballI)
    fix lo hi extra r assume "page_range f = Some (lo # hi # extra)" "r \<in> set rs"
    then have "page_filter (Some f) = Some (lo # hi # extra)"
      by (simp add: page_filter_def truthy_get_def)
    moreover from \<open>r \<in> set rs\<close> obtain x where "x \<in> set ranked" "r = annotate (snd x)"
      unfolding rs by auto
    ultimately show "lo \<le> int (page_number r) \<and> int (page_number r) \<le> hi"
      using kept keeps_true(2)[of "Some f" "snd x" lo hi extra] by (simp add: annotate_simps)
  qed
  have conf: "\<forall>m. min_confidence f = Some m \<longrightarrow>
             (m \<noteq> 0 \<or> (\<forall>cands. candidates E s query top_k = Inr cands \<longrightarrow>
                            (\<forall>c\<in>set cands. 0 \<le> fst c))) \<longrightarrow>
             (\<forall>r\<in>set rs. m \<le> relevance_score r)"
  proof (intro allI impI ballI)
    fix m r assume m: "min_confidence f = Some m"
      and alt: "m \<noteq> 0 \<or> (\<forall>cands. candidates E s query top_k = Inr cands \<longrightarrow>
                            (\<forall>c\<in>set cands. 0 \<le> fst c))"
      and r: "r \<in> set rs"
    from r obtain x where x: "x \<in> set ranked" "r = annotate (snd x)"
      unfolding rs by auto
    show "m \<le> relevance_score r"
    proof (cases "m = 0")
      case True
      with alt pos x(1) have "0 < data_score (snd x)" by blast
      then show ?thesis using True x(2) by (simp add: annotate_simps)
    next
      case False
      with m have "confidence_filter (Some f) = Some m"
        by (simp add: confidence_filter_def truthy_get_def)
      then show ?thesis
        using kept keeps_true(3)[of "Some f" "snd x" m] x by (simp add: annotate_simps)
    qed
  qed
  from doc page conf show ?thesis by (rule conjI[OF _ conjI])
qed

subsection \<open>Chunk ids\<close>

lemma digit_char_neq_underscore: "d < 10 \<Longrightarrow> digit_char d \<noteq> CHR ''_''"
proof
  assume d: "d < 10" and "digit_char d = CHR ''_''"
  then have "(of_char (digit_char d) :: nat) = of_char CHR ''_''" by simp
  then show False using d by (simp add: digit_char_def)
qed

lemma digit_char_inj: "a < 10 \<Longrightarrow> b < 10 \<Longrightarrow> digit_char a = digit_char b \<Longrightarrow> a = b"
proof -
  assume a: "a < 10" and b: "b < 10" and "digit_char a = digit_char b"
  then have "(of_char (digit_char a) :: nat) = of_char (digit_char b)" by simp
  then show "a = b" using a b by (simp add: digit_char_def)
qed

lemma str_nat_no_underscore: "CHR ''_'' \<notin> set (str_nat n)"
proof (induction n rule: str_nat.induct)
  case (1 n)
  show ?case
  proof (cases "n < 10")
    case True
    then show ?thesis
      using digit_char_neq_underscore[of n] by (subst str_nat.simps) auto
  next
    case False
    moreover have "n mod 10 < 10" by simp
    ultimately show ?thesis
      using 1 digit_char_neq_underscore[of "n mod 10"] by (subst str_nat.simps) auto
  qed
qed

lemma str_nat_nonempty: "str_nat n \<noteq> []"
  by (subst str_nat.simps) simp

lemma str_nat_inj: "str_nat n = str_nat m \<Longrightarrow> n = m"
proof (induction n arbitrary: m rule: str_nat.induct)
  case (1 n)
  show ?case
  proof (cases "n < 10")
    case n: True
    show ?thesis
    proof (cases "m < 10")
      case True
      with n "1.prems" show ?thesis
        by (simp add: str_nat.simps[of n] str_nat.simps[of m] digit_char_inj)
    next
      case False
      with n "1.prems" have "[digit_char n] = str_nat (m div 10) @ [digit_char (m mod 10)]"
        by (simp add: str_nat.simps[of n] str_nat.simps[of m])
      then show ?thesis using str_nat_nonempty[of "m div 10"] by simp
    qed
  next
    case n: False
    show ?thesis
    proof (cases "m < 10")
      case True
      with n "1.prems" have "str_nat (n div 10) @ [digit_char (n mod 10)] = [digit_char m]"
        by (simp add: str_nat.simps[of n] str_nat.simps[of m])
      then show ?thesis using str_nat_nonempty[of "n div 10"] by simp
    next
      case False
      with n "1.prems" have eq:
        "str_nat (n div 10) = str_nat (m div 10)" "digit_char (n mod 10) = digit_char (m mod 10)"
        by (simp_all add: str_nat.simps[of n] str_nat.simps[of m])
      from "1.IH"[OF n eq(1)] have "n div 10 = m div 10" .
      moreover from eq(2) have "n mod 10 = m mod 10" by (intro digit_char_inj) simp_all
      ultimately show ?thesis by (metis div_mult_mod_eq)
    qed
  qed
qed

lemma split_at_underscore:
  assumes "CHR ''_'' \<notin> set a" and "CHR ''_'' \<notin> set a'"
    and "a @ CHR ''_'' # r = a' @ CHR ''_'' # r'"
  shows "a = a' \<and> r = r'"
proof -
  have "takeWhile (\<lambda>c. c \<noteq> CHR ''_'') (a @ CHR ''_'' # r) = a"
    using assms(1) by (auto simp: takeWhile_tail)
  moreover have "takeWhile (\<lambda>c. c \<noteq> CHR ''_'') (a' @ CHR ''_'' # r') = a'"
    using assms(2) by (auto simp: takeWhile_tail)
  ultimately have "a = a'" using assms(3) by simp
  then show ?thesis using assms(3) by simp
qed

lemma make_chunk_id_inj:
  assumes "CHR ''_'' \<notin> set d" and "CHR ''_'' \<notin> set d'"
    and "make_chunk_id d p c = make_chunk_id d' p' c'"
  shows "d = d' \<and> p = p' \<and> c = c'"
proof -
  from assms(3) have
    "d @ CHR ''_'' # (''page'' @ str_nat p @ ''_chunk'' @ str_nat c)
       = d' @ CHR ''_'' # (''page'' @ str_nat p' @ ''_chunk'' @ str_nat c')"
    by (simp add: make_chunk_id_def)
  from split_at_underscore[OF assms(1,2) this]
  have d: "d = d'" and "str_nat p @ CHR ''_'' # (''chunk'' @ str_nat c)
       = str_nat p' @ CHR ''_'' # (''chunk'' @ str_nat c')" by simp_all
  from split_at_underscore[OF str_nat_no_underscore str_nat_no_underscore this(2)]
  have "str_nat p = str_nat p'" "str_nat c = str_nat c'" by simp_all
  then show ?thesis using d by (simp add: str_nat_inj)
qed

lemma page_records_props:
  "c \<in> set (page_records d f n pcs) \<Longrightarrow>
     document_id c = d \<and> page_number c = n \<and> well_named c"
  by (auto simp: page_records_def well_named_def)

lemma page_records_keys: "distinct (map chunk_key (page_records d f n pcs))"
proof -
  have "map chunk_key (page_records d f n pcs)
          = map ((\<lambda>i. (d, n, i)) \<circ> fst) (enumerate 0 pcs)"
    by (simp add: page_records_def chunk_key_def case_prod_unfold comp_def)
  also have "\<dots> = map (\<lambda>i. (d, n, i)) (map fst (enumerate 0 pcs))"
    by (simp only: map_map)
  also have "\<dots> = map (\<lambda>i. (d, n, i)) [0..<length pcs]"
    by simp
  finally show ?thesis by (simp add: distinct_map inj_on_def)
qed

lemma extract_pages_named:
  "extract_pages d f n pages acc = Some cs \<Longrightarrow>
   \<forall>c\<in>set acc. document_id c = d \<and> well_named c \<Longrightarrow>
   \<forall>c\<in>set cs. document_id c = d \<and> well_named c"
proof (induction d f n pages acc rule: extract_pages.induct)
  case (1 d f n acc)
  then show ?case by simp
next
  case (2 d f n pages acc)
  then show ?case by simp
next
  case (3 d f n pt pages acc)
  show ?case
  proof (cases "strip pt \<noteq> []")
    case True
    obtain pcs where pcs: "chunk_text pt 1000 200 = Some pcs"
      using chunk_text_total by blast
    from "3.prems"(1) True pcs
    have run: "extract_pages d f (Suc n) pages (acc @ page_records d f n pcs) = Some cs" by simp
    have "\<forall>c\<in>set (acc @ page_records d f n pcs). document_id c = d \<and> well_named c"
      using "3.prems"(2) page_records_props by auto
    with "3.IH"(1)[OF True pcs run] show ?thesis by blast
  next
    case False
    with "3.prems"(1) have "extract_pages d f (Suc n) pages acc = Some cs" by simp
    from "3.IH"(2)[OF False this "3.prems"(2)] show ?thesis .
  qed
qed

lemma extract_pages_keys:
  "extract_pages d f n pages acc = Some cs \<Longrightarrow> distinct (map chunk_key acc) \<Longrightarrow>
   \<forall>c\<in>set acc. page_number c < n \<Longrightarrow> distinct (map chunk_key cs)"
proof (induction d f n pages acc rule: extract_pages.induct)
  case (1 d f n acc)
  then show ?case by simp
next
  case (2 d f n pages acc)
  then show ?case by simp
next
  case (3 d f n pt pages acc)
  show ?case
  proof (cases "strip pt \<noteq> []")
    case True
    obtain pcs where pcs: "chunk_text pt 1000 200 = Some pcs"
      using chunk_text_total by blast
    from "3.prems"(1) True pcs
    have run: "extract_pages d f (Suc n) pages (acc @ page_records d f n pcs) = Some cs" by simp
    have new: "\<forall>c\<in>set (page_records d f n pcs). page_number c = n"
      using page_records_props by blast
    have "chunk_key ` set acc \<inter> chunk_key ` set (page_records d f n pcs) = {}"
    proof -
      have "chunk_key a \<noteq> chunk_key b"
        if "a \<in> set acc" "b \<in> set (page_records d f n pcs)" for a b
      proof
        assume "chunk_key a = chunk_key b"
        then have "page_number a = page_number b" by (simp add: chunk_key_def)
        with that new "3.prems"(3) show False by fastforce
      qed
      then show ?thesis by (auto simp: image_iff) metis
    qed
    then have d1: "distinct (map chunk_key (acc @ page_records d f n pcs))"
      using "3.prems"(2) page_records_keys by simp
    have d2: "\<forall>c\<in>set (acc @ page_records d f n pcs). page_number c < Suc n"
      using "3.prems"(3) new by fastforce
    from "3.IH"(1)[OF True pcs run d1 d2] show ?thesis .
  next
    case False
    with "3.prems"(1) have run: "extract_pages d f (Suc n) pages acc = Some cs" by simp
    have "\<forall>c\<in>set acc. page_number c < Suc n" using "3.prems"(3) by fastforce
    from "3.IH"(2)[OF False run "3.prems"(2) this] show ?thesis .
  qed
qed

lemma extract_and_chunk_pdf_props:
  assumes "extract_and_chunk_pdf reader d f = Some cs"
  shows "distinct (map chunk_key cs)" and "\<forall>c\<in>set cs. document_id c = d \<and> well_named c"
proof -
  show "distinct (map chunk_key cs)"
  proof (cases reader)
    case None
    with assms show ?thesis by (simp add: extract_and_chunk_pdf_def)
  next
    case (Some pages)
    with assms have "extract_pages d f 1 pages [] = Some cs"
      by (simp add: extract_and_chunk_pdf_def)
    then show ?thesis by (rule extract_pages_keys) simp_all
  qed
  show "\<forall>c\<in>set cs. document_id c = d \<and> well_named c"
  proof (cases reader)
    case None
    with assms show ?thesis by (simp add: extract_and_chunk_pdf_def)
  next
    case (Some pages)
    with assms have "extract_pages d f 1 pages [] = Some cs"
      by (simp add: extract_and_chunk_pdf_def)
    then show ?thesis by (rule extract_pages_named) simp
  qed
qed

lemma distinct_chunk_ids:
  assumes "distinct (map chunk_key cs)"
    and "\<forall>c\<in>set cs. well_named c \<and> CHR ''_'' \<notin> set (document_id c)"
  shows "distinct (map chunk_id cs)"
proof -
  from assms(1) have cs: "distinct cs" and inj: "inj_on chunk_key (set cs)"
    by (simp_all add: distinct_map)
  have "inj_on chunk_id (set cs)"
  proof (rule inj_onI)
    fix a b assume a: "a \<in> set cs" and b: "b \<in> set cs" and eq: "chunk_id a = chunk_id b"
    from a b assms(2) eq
    have "make_chunk_id (document_id a) (page_number a) (chunk_index a)
            = make_chunk_id (document_id b) (page_number b) (chunk_index b)"
      by (simp add: well_named_def)
    moreover from a b assms(2) have "CHR ''_'' \<notin> set (document_id a)"
      "CHR ''_'' \<notin> set (document_id b)" by simp_all
    ultimately have "chunk_key a = chunk_key b"
      using make_chunk_id_inj unfolding chunk_key_def by blast
    with inj a b show "a = b" by (simp add: inj_on_def)
  qed
  with cs show ?thesis by (simp add: distinct_map)
qed

lemma ingest_all_keys:
  assumes under: "\<forall>name. CHR ''_'' \<notin> set (md5_hexdigest E name)"
  shows "ingest_all E files sd = Some sd' \<Longrightarrow>
    distinct (map (\<lambda>f. md5_hexdigest E (file_name f)) files) \<Longrightarrow>
    distinct (map chunk_key (chunks (fst sd))) \<Longrightarrow>
    \<forall>c\<in>set (chunks (fst sd)). well_named c \<and> CHR ''_'' \<notin> set (document_id c)
       \<and> document_id c \<notin> (\<lambda>f. md5_hexdigest E (file_name f)) ` set files \<Longrightarrow>
    distinct (map chunk_key (chunks (fst sd')))
    \<and> (\<forall>c\<in>set (chunks (fst sd')). well_named c \<and> CHR ''_'' \<notin> set (document_id c))"
proof (induction files arbitrary: sd)
  case Nil
  then show ?case by simp
next
  case (Cons f fs)
  let ?d = "md5_hexdigest E (file_name f)"
  from Cons.prems(1) obtain r s1 d1 where
    run: "process_document E f sd = Some (r, s1, d1)" and
    rest: "ingest_all E fs (s1, d1) = Some sd'"
    by (auto split: option.splits)
  from Cons.prems(2) have fs: "distinct (map (\<lambda>f. md5_hexdigest E (file_name f)) fs)"
    and fresh_d: "?d \<notin> (\<lambda>f. md5_hexdigest E (file_name f)) ` set fs" by auto
  from run show ?case
  proof (cases rule: process_document_cases)
    case empty
    then have same: "chunks (fst (s1, d1)) = chunks (fst sd)" by simp
    have k1: "distinct (map chunk_key (chunks (fst (s1, d1))))"
      using Cons.prems(3) same by simp
    have k2: "\<forall>c\<in>set (chunks (fst (s1, d1))). well_named c \<and> CHR ''_'' \<notin> set (document_id c)
       \<and> document_id c \<notin> (\<lambda>f. md5_hexdigest E (file_name f)) ` set fs"
      using Cons.prems(4) same by auto
    from Cons.IH[OF rest fs k1 k2] show ?thesis .
  next
    case (stored text_chunks)
    from extract_and_chunk_pdf_props[OF stored(7)]
    have new_keys: "distinct (map chunk_key text_chunks)"
      and new: "\<forall>c\<in>set text_chunks. document_id c = ?d \<and> well_named c" by simp_all
    have "chunk_key a \<noteq> chunk_key b"
      if "a \<in> set (chunks (fst sd))" "b \<in> set text_chunks" for a b
    proof
      assume "chunk_key a = chunk_key b"
      then have "document_id a = document_id b" by (simp add: chunk_key_def)
      with that new have "document_id a = ?d" by simp
      with that(1) Cons.prems(4) show False by auto
    qed
    then have "chunk_key ` set (chunks (fst sd)) \<inter> chunk_key ` set text_chunks = {}"
      by (auto simp: image_iff) metis
    with Cons.prems(3) new_keys stored(4)
    have k1: "distinct (map chunk_key (chunks (fst (s1, d1))))" by simp
    have k2: "\<forall>c\<in>set (chunks (fst (s1, d1))). well_named c \<and> CHR ''_'' \<notin> set (document_id c)
       \<and> document_id c \<notin> (\<lambda>f. md5_hexdigest E (file_name f)) ` set fs"
    proof
      fix c assume "c \<in> set (chunks (fst (s1, d1)))"
      with stored(4) consider "c \<in> set (chunks (fst sd))" | "c \<in> set text_chunks" by auto
      then show "well_named c \<and> CHR ''_'' \<notin> set (document_id c)
       \<and> document_id c \<notin> (\<lambda>f. md5_hexdigest E (file_name f)) ` set fs"
      proof cases
        case 1
        with Cons.prems(4) show ?thesis by auto
      next
        case 2
        with new have "document_id c = ?d" "well_named c" by simp_all
        with under fresh_d show ?thesis by simp
      qed
    qed
    from Cons.IH[OF rest fs k1 k2] show ?thesis .
  qed
qed

text \<open>
  Claim C9, amended. A chunk id is \<^verbatim>\<open>make_chunk_id\<close> of the chunk's document id, page
  number and chunk index. After ingesting, from an empty deployment, files whose document
  ids are pairwise different (document ids are hex digests, so hold no underscore), no two
  chunks of the chunk sequence share an id.
\<close>

theorem chunk_ids_unique:
  assumes "\<forall>name. CHR ''_'' \<notin> set (md5_hexdigest E name)"
    and "distinct (map (\<lambda>f. md5_hexdigest E (file_name f)) files)"
    and "ingest_all E files (init E no_files) = Some sd"
  shows "distinct (corpus_ids sd)
       \<and> (\<forall>c\<in>set (chunks (fst sd)).
            chunk_id c = make_chunk_id (document_id c) (page_number c) (chunk_index c))"
proof -
  have start: "chunks (fst (init E no_files)) = []"
    by (simp add: init_def load_persistent_data_def load_chunks_def load_metadata_def
        load_bm25_def no_files_def fresh_def)
  have "distinct (map chunk_key (chunks (fst sd)))
    \<and> (\<forall>c\<in>set (chunks (fst sd)). well_named c \<and> CHR ''_'' \<notin> set (document_id c))"
    using ingest_all_keys[OF assms(1) assms(3) assms(2)] start by simp
  then show ?thesis
    using distinct_chunk_ids[of "chunks (fst sd)"] by (simp add: corpus_ids_def well_named_def)
qed

subsection \<open>The 2500-character text\<close>

lemma chunk_text_2500:
  "length t = 2500 \<Longrightarrow> chunk_text t 1000 200 =
     Some (map (\<lambda>off. strip (py_slice t off (off + 1000))) [0, 800, 1600, 2400])"
  by (simp add: chunk_text_def chunk_loop.simps)

lemma chunk_lengths_2500:
  "map_option (map length) (chunk_text (codepoints (replicate 2500 CHR ''A'')) 1000 200)
     = Some [1000, 1000, 900, 100]"
proof -
  have a: "codepoints (replicate 2500 CHR ''A'') = replicate 2500 65"
    by (simp add: codepoints_def)
  have "\<not> isspace 65" by (simp add: isspace_def)
  then show ?thesis
    unfolding a by (simp add: chunk_text_2500 py_slice_def slice_bound_def strip_replicate)
qed

text \<open>
  Claim C5, amended. Chunking 2500 copies of \<open>A\<close> with chunk size 1000 and overlap 200
  gives 4 chunks, of lengths 1000, 1000, 900 and 100; for every text of 2500 characters the
  chunks are the stripped windows of 1000 characters at the offsets 0, 800, 1600 and 2400.
\<close>

theorem chunking_2500:
  "map_option (map length) (chunk_text (codepoints (replicate 2500 CHR ''A'')) 1000 200)
     = Some [1000, 1000, 900, 100]
   \<and> (\<forall>t. length t = 2500 \<longrightarrow>
         chunk_text t 1000 200
           = Some (map (\<lambda>off. strip (py_slice t off (off + 1000))) [0, 800, 1600, 2400]))"
  using chunk_lengths_2500 chunk_text_2500 by blast

theorem chunking_2500_witness:
  "length (codepoints (replicate 2500 CHR ''A'')) = 2500
   \<and> chunk_text (codepoints (replicate 2500 CHR ''A'')) 1000 200
       = Some (map (\<lambda>off. strip (py_slice (codepoints (replicate 2500 CHR ''A'')) off (off + 1000)))
                [0, 800, 1600, 2400])"
proof -
  have len: "length (codepoints (replicate 2500 CHR ''A'')) = 2500" by (simp add: codepoints_def)
  from chunking_2500 have "\<forall>t. length t = 2500 \<longrightarrow>
         chunk_text t 1000 200
           = Some (map (\<lambda>off. strip (py_slice t off (off + 1000))) [0, 800, 1600, 2400])"
    by (rule conjunct2)
  with len show ?thesis by blast
qed

theorem chunking_2500_not_three:
  "map_option (map length) (chunk_text (codepoints (replicate 2500 CHR ''A'')) 1000 200)
     \<noteq> Some [1000, 1000, 500]"
  unfolding chunk_lengths_2500 by simp

section \<open>The small deployment, evaluated\<close>

lemma chunk_text_short:
  assumes "t \<noteq> []" and "length t \<le> 800"
  shows "chunk_text t 1000 200 = Some [strip t]"
proof -
  have "py_slice t 0 1000 = t"
    using assms(2) by (simp add: py_slice_def slice_bound_def)
  then show ?thesis
    using assms by (simp add: chunk_text_def chunk_loop.simps)
qed

lemma str_nat_digit: "n < 10 \<Longrightarrow> str_nat n = [digit_char n]"
  by (subst str_nat.simps) simp

lemma demo_strips:
  "strip (codepoints ''  '') = []" "strip (codepoints ''Door schedule'') = codepoints ''Door schedule''"
  "strip (codepoints ''Room list'') = codepoints ''Room list''"
  by (simp_all add: codepoints_def strip_def isspace_def)

lemma demo_texts:
  "codepoints ''Door schedule'' \<noteq> []" "length (codepoints ''Door schedule'') \<le> 800"
  "codepoints ''Room list'' \<noteq> []" "length (codepoints ''Room list'') \<le> 800"
  by (simp_all add: codepoints_def)

lemma demo_ids:
  "make_chunk_id ''A.pdf'' (Suc (Suc 0)) 0 = ''A.pdf_page2_chunk0''"
  "make_chunk_id ''B.pdf'' (Suc 0) 0 = ''B.pdf_page1_chunk0''"
  by code_simp+

lemma demo_extract_a:
  "extract_and_chunk_pdf (Some [Some (codepoints ''  ''), Some (codepoints ''Door schedule'')]) ''A.pdf'' ''A.pdf''
     = Some [\<lparr>chunk_id = ''A.pdf_page2_chunk0'', document_id = ''A.pdf'', filename = ''A.pdf'',
              page_number = 2, chunk_index = 0, content = codepoints ''Door schedule''\<rparr>]"
  by (simp add: extract_and_chunk_pdf_def demo_strips demo_texts chunk_text_short
      page_records_def enumerate_eq_zip demo_ids)

lemma demo_extract_b:
  "extract_and_chunk_pdf (Some [Some (codepoints ''Room list'')]) ''B.pdf'' ''B.pdf''
     = Some [\<lparr>chunk_id = ''B.pdf_page1_chunk0'', document_id = ''B.pdf'', filename = ''B.pdf'',
              page_number = 1, chunk_index = 0, content = codepoints ''Room list''\<rparr>]"
  by (simp add: extract_and_chunk_pdf_def demo_strips demo_texts chunk_text_short
      page_records_def enumerate_eq_zip demo_ids)

lemma demo_start: "init demo_collab no_files = (fresh, no_files)"
  by (simp add: init_def load_persistent_data_def load_chunks_def load_metadata_def
      load_bm25_def no_files_def fresh_def)

lemma demo_digest: "md5_hexdigest demo_collab ''A.pdf'' = ''A.pdf''"
  "md5_hexdigest demo_collab ''B.pdf'' = ''B.pdf''"
  by (simp_all add: demo_collab_def)


lemma demo_process_a:
  "\<exists>r s' d'. process_document demo_collab demo_file_a sd = Some (r, s', d')
     \<and> resp_error r = None \<and> resp_chunks_count r = 1
     \<and> map chunk_id (chunks s') = map chunk_id (chunks (fst sd)) @ [''A.pdf_page2_chunk0'']"
  by (simp add: process_document_def demo_file_a_def demo_digest demo_extract_a Let_def
      build_bm25_index_def)

lemma demo_process_b:
  "\<exists>r s' d'. process_document demo_collab demo_file_b sd = Some (r, s', d')
     \<and> resp_error r = None \<and> resp_chunks_count r = 1
     \<and> map chunk_id (chunks s') = map chunk_id (chunks (fst sd)) @ [''B.pdf_page1_chunk0'']"
  by (simp add: process_document_def demo_file_b_def demo_digest demo_extract_b Let_def
      build_bm25_index_def)

lemma demo_ingest_aa:
  "map_option corpus_ids (ingest_all demo_collab [demo_file_a, demo_file_a] (init demo_collab no_files))
     = Some [''A.pdf_page2_chunk0'', ''A.pdf_page2_chunk0'']"
proof -
  obtain r1 s1 d1 where 1: "process_document demo_collab demo_file_a (init demo_collab no_files) = Some (r1, s1, d1)"
    "map chunk_id (chunks s1) = [''A.pdf_page2_chunk0'']"
    using demo_process_a[of "init demo_collab no_files"] by (auto simp: demo_start fresh_def)
  obtain r2 s2 d2 where 2: "process_document demo_collab demo_file_a (s1, d1) = Some (r2, s2, d2)"
    "map chunk_id (chunks s2) = map chunk_id (chunks s1) @ [''A.pdf_page2_chunk0'']"
    using demo_process_a[of "(s1, d1)"] by auto
  show ?thesis using 1 2 by (simp add: corpus_ids_def)
qed

lemma demo_ingest_ab:
  "map_option corpus_ids (ingest_all demo_collab [demo_file_a, demo_file_b] (init demo_collab no_files))
     = Some [''A.pdf_page2_chunk0'', ''B.pdf_page1_chunk0'']"
proof -
  obtain r1 s1 d1 where 1: "process_document demo_collab demo_file_a (init demo_collab no_files) = Some (r1, s1, d1)"
    "map chunk_id (chunks s1) = [''A.pdf_page2_chunk0'']"
    using demo_process_a[of "init demo_collab no_files"] by (auto simp: demo_start fresh_def)
  obtain r2 s2 d2 where 2: "process_document demo_collab demo_file_b (s1, d1) = Some (r2, s2, d2)"
    "map chunk_id (chunks s2) = map chunk_id (chunks s1) @ [''B.pdf_page1_chunk0'']"
    using demo_process_b[of "(s1, d1)"] by auto
  show ?thesis using 1 2 by (simp add: corpus_ids_def)
qed

lemma demo_candidates:
  "candidates demo_collab demo_processor q 5 = Inr [(0, 1), (1, 0), (1, 2)]"
  "candidates demo_collab demo_processor_bm25 q 5 = Inr [(0, 1), (1, 0), (1, 2)]"
  by (simp_all add: candidates_def demo_collab_def demo_processor_def demo_processor_bm25_def
      ntotal_def)

lemma demo_scores:
  "bm25_scores_of demo_collab demo_processor q = []"
  "bm25_scores_of demo_collab demo_processor_bm25 q = [5, 0, 2]"
  by (simp_all add: bm25_scores_of_def demo_collab_def demo_processor_def demo_processor_bm25_def)

lemma demo_chunks:
  "chunks demo_processor
     = [demo_chunk ''A.pdf'' 1, demo_chunk ''B.pdf'' 1, demo_chunk ''A.pdf'' 2]"
  "chunks demo_processor_bm25
     = [demo_chunk ''A.pdf'' 1, demo_chunk ''B.pdf'' 1, demo_chunk ''A.pdf'' 2]"
  by (simp_all add: demo_processor_def demo_processor_bm25_def)

lemma demo_combined:
  "combined_results_of demo_collab demo_processor q [(0, 1), (1, 0), (1, 2)] =
     [(1, \<lparr>data_chunk = demo_chunk ''B.pdf'' 1, data_score = 3/5, data_vector_score = 1,
            data_bm25_score = 0\<rparr>),
      (0, \<lparr>data_chunk = demo_chunk ''A.pdf'' 1, data_score = 3/10, data_vector_score = 1/2,
            data_bm25_score = 0\<rparr>),
      (2, \<lparr>data_chunk = demo_chunk ''A.pdf'' 2, data_score = 3/10, data_vector_score = 1/2,
            data_bm25_score = 0\<rparr>)]"
  by (simp add: combined_results_of_def demo_scores demo_chunks score_candidate_def
      bm25_lookup_def Let_def)

lemma demo_sorted:
  "sorted_results (combined_results_of demo_collab demo_processor q [(0, 1), (1, 0), (1, 2)])
     = combined_results_of demo_collab demo_processor q [(0, 1), (1, 0), (1, 2)]"
  unfolding demo_combined sorted_results_def by simp

lemma demo_ntotal: "ntotal demo_processor = 3"
  by (simp add: ntotal_def demo_processor_def)

lemma demo_search_all:
  "search_ranked demo_collab demo_processor q 5 None
     = Inr (combined_results_of demo_collab demo_processor q [(0, 1), (1, 0), (1, 2)])"
  unfolding search_ranked_def demo_ntotal demo_candidates Let_def sum.case demo_sorted
  unfolding demo_combined
  by (simp add: py_prefix_def py_slice_def slice_bound_def keeps_def
        document_filter_def page_filter_def confidence_filter_def truthy_get_def)

lemma demo_search_documents:
  "search_documents demo_collab demo_processor q 5 None
     = Inr (map (\<lambda>x. annotate (snd x))
              (combined_results_of demo_collab demo_processor q [(0, 1), (1, 0), (1, 2)]))"
  by (simp only: search_documents_def demo_search_all sum.case)

lemma demo_annotated:
  "map filename (map (\<lambda>x. annotate (snd x))
      (combined_results_of demo_collab demo_processor q [(0, 1), (1, 0), (1, 2)]))
     = [''B.pdf'', ''A.pdf'', ''A.pdf'']"
  "map page_number (map (\<lambda>x. annotate (snd x))
      (combined_results_of demo_collab demo_processor q [(0, 1), (1, 0), (1, 2)]))
     = [1, 1, 2]"
  unfolding demo_combined by (simp_all add: annotate_simps demo_chunk_def)

lemma demo_search_filtered:
  "search_ranked demo_collab demo_processor q 5 (Some demo_filters)
     = Inr [(0, \<lparr>data_chunk = demo_chunk ''A.pdf'' 1, data_score = 3/10,
                  data_vector_score = 1/2, data_bm25_score = 0\<rparr>),
            (2, \<lparr>data_chunk = demo_chunk ''A.pdf'' 2, data_score = 3/10,
                  data_vector_score = 1/2, data_bm25_score = 0\<rparr>)]"
  unfolding search_ranked_def demo_ntotal demo_candidates Let_def sum.case demo_sorted
  unfolding demo_combined
  by (simp add: py_prefix_def py_slice_def slice_bound_def keeps_def demo_filters_def
        document_filter_def page_filter_def confidence_filter_def truthy_get_def demo_chunk_def)

lemma demo_search_empty_document:
  "search_ranked demo_collab demo_processor q 5
       (Some \<lparr>document = Some [], page_range = None, min_confidence = None\<rparr>)
     = Inr (combined_results_of demo_collab demo_processor q [(0, 1), (1, 0), (1, 2)])"
  unfolding search_ranked_def demo_ntotal demo_candidates Let_def sum.case demo_sorted
  unfolding demo_combined
  by (simp add: py_prefix_def py_slice_def slice_bound_def keeps_def
        document_filter_def page_filter_def confidence_filter_def truthy_get_def)

lemma demo_encode: "encode demo_collab [codepoints ''Door schedule''] = [13]"
  by (simp add: demo_collab_def codepoints_def)

lemma demo_process_a_disk:
  "\<exists>r s. process_document demo_collab demo_file_a (fresh, no_files)
            = Some (r, s, save_persistent_data s no_files) \<and> index s = [13]"
  by (simp add: process_document_def demo_file_a_def demo_digest demo_extract_a Let_def
      build_bm25_index_def write_upload_def demo_encode fresh_def)

lemma demo_process_snapshot_upload:
  "\<exists>r. process_document demo_collab demo_snapshot_upload (s, d)
          = Some (r, s, d\<lparr>chunks_file := Unreadable\<rparr>)"
  by (simp add: process_document_def demo_snapshot_upload_def extract_and_chunk_pdf_def
      write_upload_def Let_def)

lemma demo_torn_run:
  "\<exists>s. ingest_all demo_collab [demo_file_a, demo_snapshot_upload] (init demo_collab no_files)
          = Some (s, (save_persistent_data s no_files)\<lparr>chunks_file := Unreadable\<rparr>)
       \<and> index s = [13]"
proof -
  obtain r1 s1 where 1: "process_document demo_collab demo_file_a (fresh, no_files)
      = Some (r1, s1, save_persistent_data s1 no_files)" "index s1 = [13]"
    using demo_process_a_disk by blast
  obtain r2 where 2: "process_document demo_collab demo_snapshot_upload
      (s1, save_persistent_data s1 no_files)
      = Some (r2, s1, (save_persistent_data s1 no_files)\<lparr>chunks_file := Unreadable\<rparr>)"
    using demo_process_snapshot_upload by blast
  show ?thesis using 1 2 by (simp add: demo_start)
qed

lemma demo_torn_value:
  "\<exists>d. demo_torn = (fresh\<lparr>index := [13]\<rparr>, d)"
proof -
  obtain s where run:
    "ingest_all demo_collab [demo_file_a, demo_snapshot_upload] (init demo_collab no_files)
       = Some (s, (save_persistent_data s no_files)\<lparr>chunks_file := Unreadable\<rparr>)"
    and idx: "index s = [13]"
    using demo_torn_run by blast
  show ?thesis
    unfolding demo_torn_def run
    by (simp add: idx init_def load_persistent_data_def load_chunks_def
        save_persistent_data_def no_files_def fresh_def)
qed

lemma demo_torn_reachable: "reachable demo_collab demo_torn"
proof -
  obtain r1 s1 where 1: "process_document demo_collab demo_file_a (init demo_collab no_files)
      = Some (r1, s1, save_persistent_data s1 no_files)" "index s1 = [13]"
    using demo_process_a_disk by (auto simp: demo_start)
  obtain r2 where 2: "process_document demo_collab demo_snapshot_upload
      (s1, save_persistent_data s1 no_files)
      = Some (r2, s1, (save_persistent_data s1 no_files)\<lparr>chunks_file := Unreadable\<rparr>)"
    using demo_process_snapshot_upload by blast
  have "reachable demo_collab (s1, save_persistent_data s1 no_files)"
    using reachable_start 1(1) by (rule reachable_ingest)
  then have "reachable demo_collab
      (s1, (save_persistent_data s1 no_files)\<lparr>chunks_file := Unreadable\<rparr>)"
    using 2 by (rule reachable_ingest)
  then have "reachable demo_collab (init demo_collab
      (snd (s1, (save_persistent_data s1 no_files)\<lparr>chunks_file := Unreadable\<rparr>)))"
    by (rule reachable_restart)
  moreover have "demo_torn = init demo_collab
      (snd (s1, (save_persistent_data s1 no_files)\<lparr>chunks_file := Unreadable\<rparr>))"
    unfolding demo_torn_def using 1(1) 2 by simp
  ultimately show ?thesis by simp
qed

lemma demo_process_b_counts:
  "\<exists>r s' d'. process_document demo_collab demo_file_b sd = Some (r, s', d')
     \<and> resp_error r = None
     \<and> ntotal s' = ntotal (fst sd) + 1
     \<and> length (chunks s') = length (chunks (fst sd)) + 1
     \<and> length (tokenized_chunks s') = length (chunks (fst sd)) + 1"
  by (simp add: process_document_def demo_file_b_def demo_digest demo_extract_b Let_def
      build_bm25_index_def ntotal_def demo_collab_def)

theorem ingestion_counts_agree_witness:
  "\<exists>r s' d'. process_document demo_collab demo_file_a (init demo_collab no_files) = Some (r, s', d')
      \<and> resp_error r = None \<and> resp_chunks_count r = 1
      \<and> ntotal (fst (init demo_collab no_files)) = length (chunks (fst (init demo_collab no_files)))
      \<and> ntotal s' = length (chunks s') \<and> length (chunks s') = length (tokenized_chunks s')
      \<and> 0 < length (chunks s')"
proof -
  obtain r s' d' where run:
    "process_document demo_collab demo_file_a (init demo_collab no_files) = Some (r, s', d')"
    and ok: "resp_error r = None" "resp_chunks_count r = 1"
    using demo_process_a[of "init demo_collab no_files"] by blast
  have enc: "\<forall>texts. length (encode demo_collab texts) = length texts"
    by (simp add: demo_collab_def)
  have before: "ntotal (fst (init demo_collab no_files))
      = length (chunks (fst (init demo_collab no_files)))"
    by (simp add: demo_start ntotal_def fresh_def)
  from ingestion_counts_agree[OF enc run ok(1)]
  have "length (chunks s') = length (tokenized_chunks s')" "0 < length (chunks s')"
    "ntotal s' = length (chunks s')
       \<longleftrightarrow> ntotal (fst (init demo_collab no_files))
             = length (chunks (fst (init demo_collab no_files)))"
    by blast+
  with before
  have "ntotal s' = length (chunks s')" "length (chunks s') = length (tokenized_chunks s')"
    "0 < length (chunks s')" by blast+
  with run ok before show ?thesis by (intro exI conjI)
qed

text \<open>
  The first file is ingested, a file without text is uploaded under the name
  \<^verbatim>\<open>chunks.pkl\<close>, and the process is restarted: the index snapshot loads with its one
  vector, the chunk snapshot cannot be read, and the \<^verbatim>\<open>except\<close> clause of the load leaves the
  chunk list empty. Ingesting the second file then succeeds and ends with 2 vectors, 1 chunk
  and 1 tokenized chunk.
\<close>

theorem torn_snapshot_counts_differ:
  "reachable demo_collab demo_torn
   \<and> map_option ingestion_counts (process_document demo_collab demo_file_b demo_torn)
       = Some (True, 2, 1, 1)"
proof -
  obtain d where torn: "demo_torn = (fresh\<lparr>index := [13]\<rparr>, d)"
    using demo_torn_value by blast
  obtain r s' d' where run: "process_document demo_collab demo_file_b demo_torn = Some (r, s', d')"
    and "resp_error r = None" "ntotal s' = ntotal (fst demo_torn) + 1"
    "length (chunks s') = length (chunks (fst demo_torn)) + 1"
    "length (tokenized_chunks s') = length (chunks (fst demo_torn)) + 1"
    using demo_process_b_counts[of demo_torn] by blast
  then have "ingestion_counts (r, s', d') = (True, 2, 1, 1)"
    unfolding torn by (simp add: ingestion_counts_def ntotal_def fresh_def)
  with run demo_torn_reachable show ?thesis by simp
qed

theorem candidate_scores_witness:
  "candidates demo_collab demo_processor_bm25 (codepoints ''door'') 5 = Inr [(0, 1), (1, 0), (1, 2)]
   \<and> (\<exists>data. map_of (combined_results_of demo_collab demo_processor_bm25 (codepoints ''door'')
                         [(0, 1), (1, 0), (1, 2)]) 0 = Some data
         \<and> data_chunk data = demo_chunk ''A.pdf'' 1
         \<and> data_vector_score data = 1 / 2 \<and> data_bm25_score data = 5
         \<and> data_score data = 1 / 2)"
proof -
  have c: "candidates demo_collab demo_processor_bm25 (codepoints ''door'') 5 = Inr [(0, 1), (1, 0), (1, 2)]"
    by (rule demo_candidates)
  have "distinct (map snd [(0::real, 1::nat), (1, 0), (1, 2)])" by simp
  moreover have "(1::real, 0::nat) \<in> set [(0, 1), (1, 0), (1, 2)]" by simp
  moreover have "(0::real) \<le> 1" by simp
  moreover have "0 < length (chunks demo_processor_bm25)" by (simp add: demo_chunks)
  ultimately obtain data where
    "map_of (combined_results_of demo_collab demo_processor_bm25 (codepoints ''door'')
        [(0, 1), (1, 0), (1, 2)]) 0 = Some data"
    "data_chunk data = chunks demo_processor_bm25 ! 0"
    "data_vector_score data = 1 / (1 + 1)"
    "data_score data = 0.6 * data_vector_score data
        + 0.4 * (if data_bm25_score data > 0 then data_bm25_score data / 10 else 0)"
    "data_bm25_score data =
       (if 0 < length (bm25_scores_of demo_collab demo_processor_bm25 (codepoints ''door''))
        then bm25_scores_of demo_collab demo_processor_bm25 (codepoints ''door'') ! 0 else 0)"
    using candidate_scores[OF c, of 1 0] by blast
  then show ?thesis using c by (intro conjI exI[of _ data]) (simp_all add: demo_scores demo_chunks)
qed

theorem search_documents_ranking_witness:
  "\<exists>rs. search_documents demo_collab demo_processor (codepoints ''door'') 5 None = Inr rs
      \<and> map filename rs = [''B.pdf'', ''A.pdf'', ''A.pdf'']
      \<and> map page_number rs = [1, 1, 2]
      \<and> sorted_wrt (\<lambda>a b. relevance_score b \<le> relevance_score a) rs
      \<and> int (length rs) \<le> 5"
proof -
  let ?rs = "map (\<lambda>x. annotate (snd x))
               (combined_results_of demo_collab demo_processor (codepoints ''door'') [(0, 1), (1, 0), (1, 2)])"
  have run: "search_documents demo_collab demo_processor (codepoints ''door'') 5 None = Inr ?rs"
    by (rule demo_search_documents)
  have "(0::int) \<le> 5" by simp
  from search_documents_ranking[OF run this]
  have "sorted_wrt (\<lambda>a b. relevance_score b \<le> relevance_score a) ?rs"
    and "int (length ?rs) \<le> 5" by blast+
  with run demo_annotated[of "codepoints ''door''"] show ?thesis
    by (intro exI[of _ ?rs] conjI)
qed

theorem filters_applied_witness:
  "\<exists>rs. search_documents demo_collab demo_processor (codepoints ''door'') 5 (Some demo_filters) = Inr rs
      \<and> length rs = 2
      \<and> list_all (\<lambda>r. filename r = ''A.pdf'' \<and> 1 \<le> int (page_number r)
                      \<and> int (page_number r) \<le> 2 \<and> 0.2 \<le> relevance_score r) rs"
proof -
  obtain rs where run:
    "search_documents demo_collab demo_processor (codepoints ''door'') 5 (Some demo_filters) = Inr rs"
    and len: "length rs = 2"
    by (simp add: search_documents_def demo_search_filtered)
  have "document demo_filters = Some ''A.pdf''" "''A.pdf'' \<noteq> []"
    "page_range demo_filters = Some (1 # 2 # [])" "min_confidence demo_filters = Some 0.2"
    "(0.2::real) \<noteq> 0"
    by (simp_all add: demo_filters_def)
  with filters_applied[OF run]
  have "\<forall>r\<in>set rs. filename r = ''A.pdf''"
    "\<forall>r\<in>set rs. 1 \<le> int (page_number r) \<and> int (page_number r) \<le> 2"
    "\<forall>r\<in>set rs. 0.2 \<le> relevance_score r"
    by blast+
  then have "list_all (\<lambda>r. filename r = ''A.pdf'' \<and> 1 \<le> int (page_number r)
                      \<and> int (page_number r) \<le> 2 \<and> 0.2 \<le> relevance_score r) rs"
    by (simp add: list_all_iff)
  with run len show ?thesis by blast
qed

theorem empty_document_filter_not_applied:
  "map_sum id (map filename)
     (search_documents demo_collab demo_processor (codepoints ''door'') 5
        (Some \<lparr>document = Some [], page_range = None, min_confidence = None\<rparr>))
   = Inr [''B.pdf'', ''A.pdf'', ''A.pdf'']"
  by (simp only: search_documents_def demo_search_empty_document sum.case map_sum.simps
      demo_annotated)

theorem search_empty_index_witness:
  "ntotal (fresh :: (nat, real list) processor) = 0
   \<and> search_documents demo_collab fresh (codepoints ''door'') 5 None = Inr []"
proof -
  have "ntotal (fresh :: (nat, real list) processor) = 0" by (simp add: ntotal_def fresh_def)
  then show ?thesis using search_empty_index[of fresh demo_collab "codepoints ''door''" 5 None] by simp
qed

theorem closer_candidate_scores_not_lower_witness:
  "rounding float32 \<and> rounding float64 \<and> (0::real) \<le> 0 \<and> (0::real) \<le> 1
   \<and> bm25_lookup [5, 0, 2] 1 = bm25_lookup [5, 0, 2] 3
   \<and> data_score (float_score_candidate float32 float64 (chunks demo_processor) [5, 0, 2] 1 3)
       \<le> data_score (float_score_candidate float32 float64 (chunks demo_processor) [5, 0, 2] 0 1)"
  using closer_candidate_scores_not_lower[of float32 float64 0 1 "[5, 0, 2]" 1 3
      "chunks demo_processor"]
  by (simp add: rounding_float_round float32_def float64_def bm25_lookup_def)

text \<open>
  Two candidates with no keyword score at the distances 0 and \<open>2 powr -60\<close> get the same
  combined score, in single and in double precision: \<^verbatim>\<open>1 + dist\<close> is 1 for both. So do, in
  single precision, the distances 1 and \<open>1 + 2 powr -23\<close>: \<^verbatim>\<open>1 + dist\<close> is 2 for both, the
  second by a tie rounded to even.
\<close>

theorem farther_candidate_same_score:
  "(0::real) < 1 / 2 ^ 60
   \<and> data_score (float_score_candidate float32 float64 (chunks demo_processor) [] (1 / 2 ^ 60) 0)
     = data_score (float_score_candidate float32 float64 (chunks demo_processor) [] 0 1)
   \<and> data_score (float_score_candidate float64 float64 (chunks demo_processor) [] (1 / 2 ^ 60) 0)
     = data_score (float_score_candidate float64 float64 (chunks demo_processor) [] 0 1)
   \<and> (1::real) < 1 + 1 / 2 ^ 23
   \<and> data_score (float_score_candidate float32 float64 (chunks demo_processor) [] (1 + 1 / 2 ^ 23) 0)
     = data_score (float_score_candidate float32 float64 (chunks demo_processor) [] 1 1)"
proof -
  have "float_round 24 (1 + 1 / 2 ^ 60) = 1" by (rule float_round_absorbs) simp_all
  moreover have "float_round 24 (1 + 0) = 1" by (rule float_round_absorbs) simp_all
  ultimately have a: "float32 (1 + 1 / 2 ^ 60) = float32 (1 + 0)"
    unfolding float32_def by (rule trans[OF _ sym])
  have "float_round 53 (1 + 1 / 2 ^ 60) = 1" by (rule float_round_absorbs) simp_all
  moreover have "float_round 53 (1 + 0) = 1" by (rule float_round_absorbs) simp_all
  ultimately have b: "float64 (1 + 1 / 2 ^ 60) = float64 (1 + 0)"
    unfolding float64_def by (rule trans[OF _ sym])
  show ?thesis
    unfolding data_float_score_candidate a b float32_tie by (simp add: bm25_lookup_def)
qed



theorem chunk_ids_unique_witness:
  "\<exists>sd. ingest_all demo_collab [demo_file_a, demo_file_b] (init demo_collab no_files) = Some sd
      \<and> corpus_ids sd = [''A.pdf_page2_chunk0'', ''B.pdf_page1_chunk0'']
      \<and> distinct (corpus_ids sd)"
proof -
  obtain sd where run:
    "ingest_all demo_collab [demo_file_a, demo_file_b] (init demo_collab no_files) = Some sd"
    and ids: "corpus_ids sd = [''A.pdf_page2_chunk0'', ''B.pdf_page1_chunk0'']"
    using demo_ingest_ab by auto
  have "\<forall>name. CHR ''_'' \<notin> set (md5_hexdigest demo_collab name)"
    by (simp add: demo_collab_def)
  moreover have "distinct (map (\<lambda>f. md5_hexdigest demo_collab (file_name f))
                    [demo_file_a, demo_file_b])"
    by (simp add: demo_digest demo_file_a_def demo_file_b_def)
  ultimately have "distinct (corpus_ids sd)"
    using chunk_ids_unique[OF _ _ run] by blast
  with run ids show ?thesis by blast
qed

theorem reingestion_repeats_ids:
  "map_option corpus_ids
     (ingest_all demo_collab [demo_file_a, demo_file_a] (init demo_collab no_files))
   = Some [''A.pdf_page2_chunk0'', ''A.pdf_page2_chunk0'']"
  by (rule demo_ingest_aa)

end
